theory Spec2Isabelle
  imports Main
begin

text \<open>
  A model of the key binding library \<^verbatim>\<open>tinykeys\<close> (\<^verbatim>\<open>src/tinykeys.ts\<close>): the parser of binding
  strings, the matcher of one key press against one keyboard event, the listener that tracks
  the progress of every binding, its timer, and the subscription to a target. The functions
  of the module are followed statement by statement; what they change (the progress map, the
  timer, the listeners of the target) is a state that the model passes along, and an exception
  is a result.
\<close>

section \<open>Strings\<close>

text \<open>
  A JavaScript string is modelled by a \<^typ>\<open>string\<close>; every character stands for one code
  unit. The model of the built-in string operations is exact on ASCII text: code units of
  128 and above are taken to have no upper-case form, not to be white space and not to be
  word characters (the last is what \<^verbatim>\<open>\b\<close> does for them in a regular expression without
  the \<^verbatim>\<open>u\<close> flag).
\<close>

definition toUpperCase :: "string \<Rightarrow> string" where
  "toUpperCase s =
     map (\<lambda>c. case map_of (zip ''abcdefghijklmnopqrstuvwxyz'' ''ABCDEFGHIJKLMNOPQRSTUVWXYZ'') c of
                Some u \<Rightarrow> u
              | None \<Rightarrow> c) s"

definition isWhiteSpace :: "char \<Rightarrow> bool" where
  "isWhiteSpace c = ((of_char c :: nat) \<in> {9, 10, 11, 12, 13, 32})"

text \<open>\<^verbatim>\<open>\w\<close> of a regular expression: a letter, a digit or the underscore.\<close>

definition isWordChar :: "char \<Rightarrow> bool" where
  "isWordChar c =
     (let n = (of_char c :: nat)
      in (48 \<le> n \<and> n \<le> 57) \<or> (65 \<le> n \<and> n \<le> 90) \<or> n = 95 \<or> (97 \<le> n \<and> n \<le> 122))"

text \<open>\<^verbatim>\<open>String.prototype.trim\<close>: white space is removed at both ends.\<close>

definition trim :: "string \<Rightarrow> string" where
  "trim s = rev (dropWhile isWhiteSpace (rev (dropWhile isWhiteSpace s)))"

text \<open>
  \<^verbatim>\<open>s.split(sep)\<close> for a separator of one character: the string is cut at every occurrence
  of the separator, empty pieces are kept, and the empty string gives one empty piece.
\<close>

fun split_on :: "char \<Rightarrow> string \<Rightarrow> string list" where
  "split_on sep [] = [[]]"
| "split_on sep (c # cs) =
     (if c = sep then [] # split_on sep cs
      else (case split_on sep cs of
              [] \<Rightarrow> [[c]]
            | t # ts \<Rightarrow> (c # t) # ts))"

text \<open>
  \<^verbatim>\<open>s.split(/\b\+/)\<close>: the string is cut at every \<^verbatim>\<open>+\<close> that stands at a word boundary.
  \<^verbatim>\<open>+\<close> is not a word character, so the position before it is a word boundary exactly when
  the character before it exists and is a word character. The flag says whether the
  character before the rest of the string is a word character; it is \<open>False\<close> at the start
  of the string and after a separator (which is a \<^verbatim>\<open>+\<close>).
\<close>

fun split_wb_plus :: "bool \<Rightarrow> string \<Rightarrow> string list" where
  "split_wb_plus w [] = [[]]"
| "split_wb_plus w (c # cs) =
     (if c = CHR ''+'' \<and> w then [] # split_wb_plus False cs
      else (case split_wb_plus (isWordChar c) cs of
              [] \<Rightarrow> [[c]]
            | seg # segs \<Rightarrow> (c # seg) # segs))"

text \<open>\<^verbatim>\<open>/Mac|iPod|iPhone|iPad/.test(s)\<close>: one of the four words occurs in \<open>s\<close>.\<close>

fun occurs_in :: "string \<Rightarrow> string \<Rightarrow> bool" where
  "occurs_in pat [] = (pat = [])"
| "occurs_in pat (c # cs) = (take (length pat) (c # cs) = pat \<or> occurs_in pat cs)"

section \<open>Parsing a key binding string\<close>

type_synonym KeyBindingPress = "string list \<times> string"

text \<open>
  The module constant \<^verbatim>\<open>MOD\<close>. Its argument is \<^verbatim>\<open>navigator.platform\<close>, or \<open>None\<close> where
  \<^verbatim>\<open>navigator\<close> is not an object.
\<close>

definition MOD :: "string option \<Rightarrow> string" where
  "MOD navigator =
     (case navigator of
        None \<Rightarrow> ''Control''
      | Some platform \<Rightarrow>
          if occurs_in ''Mac'' platform \<or> occurs_in ''iPod'' platform
             \<or> occurs_in ''iPhone'' platform \<or> occurs_in ''iPad'' platform
          then ''Meta'' else ''Control'')"

text \<open>
  The arrow function that \<^verbatim>\<open>parseKeybinding\<close> maps over the presses. \<^verbatim>\<open>split\<close> never
  returns an empty array (lemma \<open>split_wb_plus_not_Nil\<close> below), so \<^verbatim>\<open>pop\<close> always finds a
  last element.
\<close>

definition parsePress :: "string option \<Rightarrow> string \<Rightarrow> KeyBindingPress" where
  "parsePress navigator press =
     (let mods = split_wb_plus False press;
          key = last mods;
          mods = butlast mods;
          mods = map (\<lambda>m. if m = ''$mod'' then MOD navigator else m) mods
      in (mods, key))"

definition parseKeybinding :: "string option \<Rightarrow> string \<Rightarrow> KeyBindingPress list" where
  "parseKeybinding navigator str =
     map (parsePress navigator) (split_on CHR '' '' (trim str))"

subsection \<open>The grammar, as the specification words it\<close>

text \<open>\<^verbatim>\<open>Array.prototype.join\<close> with a separator of one character.\<close>

fun join :: "char \<Rightarrow> string list \<Rightarrow> string" where
  "join sep [] = []"
| "join sep [x] = x"
| "join sep (x # y # ys) = x @ sep # join sep (y # ys)"

text \<open>No \<^verbatim>\<open>+\<close> of the string stands at a word boundary (the flag as for \<open>split_wb_plus\<close>).\<close>

fun no_wb_plus :: "bool \<Rightarrow> string \<Rightarrow> bool" where
  "no_wb_plus w [] = True"
| "no_wb_plus w (c # cs) = (\<not> (c = CHR ''+'' \<and> w) \<and> no_wb_plus (isWordChar c) cs)"

text \<open>
  The segments of one token: there is at least one, every segment but the last ends in a
  word character (so that the \<^verbatim>\<open>+\<close> after it is at a word boundary), and no segment has a
  \<^verbatim>\<open>+\<close> at a word boundary or a space inside.
\<close>

definition ends_in_word :: "string \<Rightarrow> bool" where
  "ends_in_word seg = (seg \<noteq> [] \<and> isWordChar (last seg))"

definition token_segments :: "string list \<Rightarrow> bool" where
  "token_segments segs =
     (segs \<noteq> [] \<and> list_all ends_in_word (butlast segs)
      \<and> list_all (no_wb_plus False) segs
      \<and> list_all (\<lambda>seg. CHR '' '' \<notin> set seg) segs)"

text \<open>
  A binding string read as the specification reads it: the trimmed string is the tokens with
  one space between neighbours, and each token is its segments with one \<^verbatim>\<open>+\<close> between
  neighbours.
\<close>

definition tokens_of :: "string \<Rightarrow> string list list \<Rightarrow> bool" where
  "tokens_of str tss =
     (tss \<noteq> [] \<and> list_all token_segments tss
      \<and> trim str = join CHR '' '' (map (join CHR ''+'') tss))"

text \<open>The press of a token: the segments before the last are the modifiers, the last is the key.\<close>

definition press_of_segments :: "string option \<Rightarrow> string list \<Rightarrow> KeyBindingPress" where
  "press_of_segments navigator segs =
     (map (\<lambda>m. if m = ''$mod'' then MOD navigator else m) (butlast segs), last segs)"

section \<open>Keyboard events and the press matcher\<close>

text \<open>
  A \<^verbatim>\<open>KeyboardEvent\<close>, with the fields the module reads. The method
  \<^verbatim>\<open>event.getModifierState\<close> is \<open>None\<close> where \<^verbatim>\<open>typeof event.getModifierState\<close> is not
  \<^verbatim>\<open>"function"\<close>.
\<close>

record KeyboardEvent =
  key :: string
  code :: string
  repeat :: bool
  getModifierState_method :: "(string \<Rightarrow> bool) option"

text \<open>An event handed to the listener is a \<^verbatim>\<open>KeyboardEvent\<close> or some other \<^verbatim>\<open>Event\<close>.\<close>

datatype Event = Keyboard KeyboardEvent | Other

definition KEYBINDING_MODIFIER_KEYS :: "string list" where
  "KEYBINDING_MODIFIER_KEYS = [''Shift'', ''Meta'', ''Alt'', ''Control'']"

definition getModifierState :: "KeyboardEvent \<Rightarrow> string \<Rightarrow> bool" where
  "getModifierState event m =
     (case getModifierState_method event of
        Some f \<Rightarrow> f m
      | None \<Rightarrow> False)"

text \<open>
  \<^verbatim>\<open>Array.prototype.find\<close> returns the element found or \<^verbatim>\<open>undefined\<close>, and \<^verbatim>\<open>match\<close> uses the
  result as a condition: \<^verbatim>\<open>undefined\<close> and the empty string count as false.
\<close>

definition truthy :: "string option \<Rightarrow> bool" where
  "truthy v = (case v of None \<Rightarrow> False | Some s \<Rightarrow> s \<noteq> [])"

definition match :: "KeyboardEvent \<Rightarrow> KeyBindingPress \<Rightarrow> bool" where
  "match event press =
     (\<not> ((toUpperCase (snd press) \<noteq> toUpperCase (key event) \<and> snd press \<noteq> code event)
         \<or> truthy (find (\<lambda>m. \<not> getModifierState event m) (fst press))
         \<or> truthy (find (\<lambda>m. m \<notin> set (fst press) \<and> snd press \<noteq> m \<and> getModifierState event m)
                     KEYBINDING_MODIFIER_KEYS)))"

subsection \<open>The matcher, as the specification words it\<close>

text \<open>
  The press's key equals the event's logical key without regard to case, or the event's
  physical code exactly.
\<close>

definition key_matches :: "KeyboardEvent \<Rightarrow> KeyBindingPress \<Rightarrow> bool" where
  "key_matches event press =
     (toUpperCase (snd press) = toUpperCase (key event) \<or> snd press = code event)"

text \<open>The modifier set an event presents: the keys its modifier state reports as active.\<close>

definition active_modifiers :: "KeyboardEvent \<Rightarrow> string set" where
  "active_modifiers event = {m. getModifierState event m}"

text \<open>
  An event that is not a repeat, with the given logical key and physical code, whose
  modifier state reports exactly the listed keys as active.
\<close>

definition key_event :: "string \<Rightarrow> string \<Rightarrow> string list \<Rightarrow> KeyboardEvent" where
  "key_event k c held =
     \<lparr>key = k, code = c, repeat = False, getModifierState_method = Some (\<lambda>m. m \<in> set held)\<rparr>"

section \<open>The key binding handler\<close>

text \<open>
  What a call of a binding's callback does to the handler: it returns, or it throws. A callback
  is taken not to call back into the handler or into the timers while it runs.
\<close>

datatype completion = Normal | Throw

type_synonym callback = "KeyboardEvent \<Rightarrow> completion"

text \<open>
  A \<^verbatim>\<open>KeyBindingMap\<close> is given by its entries in the order in which \<^verbatim>\<open>Object.keys\<close> lists
  its keys.
\<close>

type_synonym KeyBindingMap = "(string \<times> callback) list"

text \<open>The options; a field that is not given is \<open>None\<close>. The timeout is in whole milliseconds.\<close>

record KeyBindingHandlerOptions =
  timeout :: "nat option"
  allowRepeat :: "bool option"

text \<open>The field \<^verbatim>\<open>event\<close> of the source is \<open>event_name\<close> here.\<close>

record KeyBindingOptions = KeyBindingHandlerOptions +
  event_name :: "string option"

definition DEFAULT_TIMEOUT :: nat where
  "DEFAULT_TIMEOUT = 1000"

definition DEFAULT_EVENT :: string where
  "DEFAULT_EVENT = ''keydown''"

text \<open>
  What the listener returned by \<^verbatim>\<open>createKeybindingsHandler\<close> captures and never changes:
  the options, the local \<^verbatim>\<open>timeout\<close> and the parsed \<^verbatim>\<open>keyBindings\<close>.
\<close>

record handler =
  options :: KeyBindingHandlerOptions
  timeout_ms :: nat
  keyBindings :: "(KeyBindingPress list \<times> callback) list"

text \<open>
  What changes while the program runs.
  \<^item> \<open>possibleMatches\<close> and \<open>timer\<close> are the two variables of the closure. The keys of the
    \<^verbatim>\<open>Map\<close> are the sequence arrays themselves, compared by identity; every binding has an
    array of its own, so the key of a binding is its index in \<open>keyBindings\<close>.
  \<^item> \<open>clock\<close>, \<open>pending_timers\<close> (identifier and due time of every timer that is set and has
    not fired or been cleared) and \<open>last_timer_id\<close> are the timers of the host. Every pending
    timer has been set by the handler, so what it runs when it fires is
    \<^verbatim>\<open>possibleMatches.clear()\<close>.
  \<^item> \<open>listeners\<close> are the event types for which the handler is registered on the target.
  \<^item> \<open>invoked\<close> records every call of a callback: the index of its binding and the event
    passed.
\<close>

record state =
  possibleMatches :: "nat \<rightharpoonup> KeyBindingPress list"
  timer :: "nat option"
  clock :: nat
  pending_timers :: "(nat \<times> nat) list"
  last_timer_id :: nat
  listeners :: "string set"
  invoked :: "(nat \<times> KeyboardEvent) list"

text \<open>\<^verbatim>\<open>setTimeout\<close> of the host: the identifier returned is a positive number not used before.\<close>

definition setTimeout :: "nat \<Rightarrow> state \<Rightarrow> nat \<times> state" where
  "setTimeout delay st =
     (let tid = Suc (last_timer_id st)
      in (tid, st\<lparr>last_timer_id := tid,
                 pending_timers := pending_timers st @ [(tid, clock st + delay)]\<rparr>))"

definition clearTimeout :: "nat \<Rightarrow> state \<Rightarrow> state" where
  "clearTimeout tid st = st\<lparr>pending_timers := filter (\<lambda>(i, due). i \<noteq> tid) (pending_timers st)\<rparr>"

text \<open>
  Time passes without an event: the clock moves on by \<open>d\<close> milliseconds and every timer that
  is due by then fires, which clears \<open>possibleMatches\<close>.
\<close>

definition elapse :: "nat \<Rightarrow> state \<Rightarrow> state" where
  "elapse d st =
     (let now = clock st + d;
          due = filter (\<lambda>(i, t). t \<le> now) (pending_timers st);
          st = st\<lparr>clock := now,
                  pending_timers := filter (\<lambda>(i, t). \<not> t \<le> now) (pending_timers st)\<rparr>
      in if due = [] then st else st\<lparr>possibleMatches := Map.empty\<rparr>)"

text \<open>
  \<^verbatim>\<open>createKeybindingsHandler\<close>: the constant part of the closure. The options are \<open>None\<close> where
  the argument is left out.
\<close>

definition createKeybindingsHandler ::
  "string option \<Rightarrow> KeyBindingMap \<Rightarrow> KeyBindingHandlerOptions option \<Rightarrow> handler" where
  "createKeybindingsHandler navigator keyBindingMap opts =
     (let options = (case opts of
                       None \<Rightarrow> \<lparr>timeout = None, allowRepeat = Some False\<rparr>
                     | Some given \<Rightarrow> given);
          timeout = (case timeout options of Some t \<Rightarrow> t | None \<Rightarrow> DEFAULT_TIMEOUT);
          keyBindings = map (\<lambda>(key, callback). (parseKeybinding navigator key, callback))
                          keyBindingMap
      in \<lparr>options = options, timeout_ms = timeout, keyBindings = keyBindings\<rparr>)"

text \<open>The variable part when the handler has just been created: an empty map and no timer.\<close>

definition created :: state where
  "created = \<lparr>possibleMatches = Map.empty, timer = None, clock = 0, pending_timers = [],
              last_timer_id = 0, listeners = {}, invoked = []\<rparr>"

text \<open>
  The body of the \<^verbatim>\<open>forEach\<close> for the binding of index \<open>i\<close>. Reading element 0 of an empty
  array gives \<^verbatim>\<open>undefined\<close>, on which \<^verbatim>\<open>match\<close> throws; a callback that throws leaves the
  entry deleted.
\<close>

definition keyBinding_step ::
  "KeyboardEvent \<Rightarrow> nat \<Rightarrow> KeyBindingPress list \<times> callback \<Rightarrow> state \<Rightarrow> completion \<times> state" where
  "keyBinding_step event i keyBinding st =
     (let sequence = fst keyBinding;
          callback = snd keyBinding;
          prev = possibleMatches st i;
          remainingExpectedPresses = (case prev of Some p \<Rightarrow> p | None \<Rightarrow> sequence)
      in case remainingExpectedPresses of
           [] \<Rightarrow> (Throw, st)
         | currentExpectedPress # rest \<Rightarrow>
             if \<not> match event currentExpectedPress then
               (if \<not> getModifierState event (key event)
                then (Normal, st\<lparr>possibleMatches := (possibleMatches st)(i := None)\<rparr>)
                else (Normal, st))
             else if length remainingExpectedPresses > 1 then
               (Normal, st\<lparr>possibleMatches := (possibleMatches st)(i \<mapsto> rest)\<rparr>)
             else
               (callback event,
                st\<lparr>possibleMatches := (possibleMatches st)(i := None),
                   invoked := invoked st @ [(i, event)]\<rparr>))"

text \<open>\<^verbatim>\<open>keyBindings.forEach\<close>, from index \<open>i\<close> on; an exception ends the loop.\<close>

fun forEach_keyBinding ::
  "KeyboardEvent \<Rightarrow> nat \<Rightarrow> (KeyBindingPress list \<times> callback) list \<Rightarrow> state
     \<Rightarrow> completion \<times> state" where
  "forEach_keyBinding event i [] st = (Normal, st)"
| "forEach_keyBinding event i (keyBinding # rest) st =
     (case keyBinding_step event i keyBinding st of
        (Normal, st') \<Rightarrow> forEach_keyBinding event (Suc i) rest st'
      | (Throw, st') \<Rightarrow> (Throw, st'))"

text \<open>
  The listener that \<^verbatim>\<open>createKeybindingsHandler\<close> returns. \<^verbatim>\<open>if (timer)\<close> is false for
  \<^verbatim>\<open>null\<close> and for the number 0.
\<close>

definition handle :: "handler \<Rightarrow> Event \<Rightarrow> state \<Rightarrow> completion \<times> state" where
  "handle h ev st =
     (case ev of
        Other \<Rightarrow> (Normal, st)
      | Keyboard event \<Rightarrow>
          if allowRepeat (options h) \<noteq> Some True \<and> repeat event then (Normal, st)
          else
            (case forEach_keyBinding event 0 (keyBindings h) st of
               (Throw, st') \<Rightarrow> (Throw, st')
             | (Normal, st') \<Rightarrow>
                 let st' = (case timer st' of
                              None \<Rightarrow> st'
                            | Some t \<Rightarrow> if t = 0 then st' else clearTimeout t st');
                     (tid, st') = setTimeout (timeout_ms h) st'
                 in (Normal, st'\<lparr>timer := Some tid\<rparr>)))"

section \<open>Subscribing and unsubscribing\<close>

text \<open>
  \<^verbatim>\<open>tinykeys\<close> creates the handler and registers it on the target for one event type. The
  function it returns is \<open>unsubscribe\<close>, applied to the handler and the event type that
  \<open>tinykeys\<close> gives back.
\<close>

definition tinykeys ::
  "string option \<Rightarrow> KeyBindingMap \<Rightarrow> KeyBindingOptions option \<Rightarrow> state
     \<Rightarrow> (handler \<times> string) \<times> state" where
  "tinykeys navigator keyBindingMap opts st =
     (let options = (case opts of
                       None \<Rightarrow> \<lparr>timeout = None, allowRepeat = None, event_name = None\<rparr>
                     | Some given \<Rightarrow> given);
          type = (case event_name options of Some e \<Rightarrow> e | None \<Rightarrow> DEFAULT_EVENT);
          onKeyEvent = createKeybindingsHandler navigator keyBindingMap
                         (Some (KeyBindingHandlerOptions.truncate options))
      in ((onKeyEvent, type), st\<lparr>listeners := insert type (listeners st)\<rparr>))"

text \<open>\<^verbatim>\<open>target.removeEventListener(event, onKeyEvent)\<close>.\<close>

definition unsubscribe :: "handler \<times> string \<Rightarrow> state \<Rightarrow> state" where
  "unsubscribe sub st = st\<lparr>listeners := listeners st - {snd sub}\<rparr>"

text \<open>The target receives an event of some type and calls the handler if it is registered.\<close>

definition dispatchEvent ::
  "handler \<times> string \<Rightarrow> string \<Rightarrow> Event \<Rightarrow> state \<Rightarrow> completion \<times> state" where
  "dispatchEvent sub type ev st =
     (if type = snd sub \<and> type \<in> listeners st then handle (fst sub) ev st else (Normal, st))"

section \<open>The sequence tracker, as the specification words it\<close>

text \<open>
  The presses a binding still expects: its progress entry or, if there is none, its whole
  sequence.
\<close>

definition remaining_presses ::
  "KeyBindingPress list \<Rightarrow> KeyBindingPress list option \<Rightarrow> KeyBindingPress list" where
  "remaining_presses sequence entry = (case entry of Some p \<Rightarrow> p | None \<Rightarrow> sequence)"

text \<open>
  The progress entry of a binding after an event. If the event does not match the first
  remaining press, the entry is deleted, unless the key of the event is an active modifier,
  which leaves the entry as it is. If it matches and more than one press remains, the entry
  is the remaining presses without the first. If it matches the last remaining press, the
  entry is deleted.
\<close>

definition progress_after ::
  "KeyboardEvent \<Rightarrow> KeyBindingPress list \<Rightarrow> KeyBindingPress list option
     \<Rightarrow> KeyBindingPress list option" where
  "progress_after event sequence entry =
     (let remaining = remaining_presses sequence entry
      in if \<not> match event (hd remaining) then
           (if getModifierState event (key event) then entry else None)
         else if length remaining > 1 then Some (tl remaining)
         else None)"

text \<open>The event matches the last remaining press of the binding.\<close>

definition completes ::
  "KeyboardEvent \<Rightarrow> KeyBindingPress list \<Rightarrow> KeyBindingPress list option \<Rightarrow> bool" where
  "completes event sequence entry =
     (let remaining = remaining_presses sequence entry
      in match event (hd remaining) \<and> length remaining = 1)"

text \<open>The event completes the binding of index \<open>j\<close>, and the callback of that binding throws.\<close>

definition callback_throws ::
  "KeyboardEvent \<Rightarrow> (KeyBindingPress list \<times> callback) list \<Rightarrow> state \<Rightarrow> nat \<Rightarrow> bool" where
  "callback_throws event kbs st j =
     (completes event (fst (kbs ! j)) (possibleMatches st j) \<and> snd (kbs ! j) event = Throw)"

text \<open>
  The state after the first \<open>m\<close> bindings have been evaluated for an event: their entries are
  updated, and the callbacks of those the event completes have been called, in the order of
  the bindings.
\<close>

definition evaluated_state ::
  "KeyboardEvent \<Rightarrow> (KeyBindingPress list \<times> callback) list \<Rightarrow> nat \<Rightarrow> state \<Rightarrow> state" where
  "evaluated_state event kbs m st =
     st\<lparr>possibleMatches :=
           (\<lambda>j. if j < m then progress_after event (fst (kbs ! j)) (possibleMatches st j)
                else possibleMatches st j),
         invoked := invoked st @ map (\<lambda>j. (j, event))
           (filter (\<lambda>j. completes event (fst (kbs ! j)) (possibleMatches st j)) [0..<m])\<rparr>"

text \<open>What the last two statements of the listener do: the pending timer is cleared and a new one set.\<close>

definition reschedule :: "handler \<Rightarrow> state \<Rightarrow> state" where
  "reschedule h st =
     st\<lparr>pending_timers :=
          (case timer st of None \<Rightarrow> pending_timers st
           | Some t \<Rightarrow> if t = 0 then pending_timers st
                       else filter (\<lambda>(i, due). i \<noteq> t) (pending_timers st))
          @ [(Suc (last_timer_id st), clock st + timeout_ms h)],
        last_timer_id := Suc (last_timer_id st),
        timer := Some (Suc (last_timer_id st))\<rparr>"

section \<open>Reachable states\<close>

text \<open>
  Two handlers with the same options and the same sequences; their callbacks may differ. A
  callback whose behaviour changes from one event to the next is a different function at
  every event.
\<close>

definition same_bindings :: "handler \<Rightarrow> handler \<Rightarrow> bool" where
  "same_bindings h h' =
     (options h' = options h \<and> timeout_ms h' = timeout_ms h
      \<and> map fst (keyBindings h') = map fst (keyBindings h))"

text \<open>
  The states a handler can be in: after its creation, after the handling of any event
  (whether the handling returns or throws), after any time has passed (with the timers that
  fire), and after any change of the listeners of the target.
\<close>

inductive reachable :: "handler \<Rightarrow> state \<Rightarrow> bool" for h where
  start: "reachable h created"
| event: "reachable h st \<Longrightarrow> same_bindings h h' \<Longrightarrow> handle h' ev st = (c, st') \<Longrightarrow> reachable h st'"
| time: "reachable h st \<Longrightarrow> reachable h (elapse d st)"
| target: "reachable h st \<Longrightarrow> reachable h (st\<lparr>listeners := L\<rparr>)"

text \<open>Every progress entry is a proper suffix of the sequence of its binding, and not empty.\<close>

definition entries_ok :: "KeyBindingPress list list \<Rightarrow> state \<Rightarrow> bool" where
  "entries_ok seqs st =
     (\<forall>i entry. possibleMatches st i = Some entry \<longrightarrow>
        i < length seqs \<and> entry \<noteq> [] \<and> (\<exists>done. done \<noteq> [] \<and> seqs ! i = done @ entry))"

text \<open>Every pending timer is the one whose identifier the closure holds.\<close>

definition one_timer :: "state \<Rightarrow> bool" where
  "one_timer st = (\<forall>(i, due) \<in> set (pending_timers st). timer st = Some i \<and> i \<noteq> 0)"

text \<open>Every binding still expects at least one press.\<close>

definition all_remaining :: "(KeyBindingPress list \<times> callback) list \<Rightarrow> state \<Rightarrow> bool" where
  "all_remaining kbs st =
     (\<forall>j<length kbs. remaining_presses (fst (kbs ! j)) (possibleMatches st j) \<noteq> [])"

text \<open>
  Two states that differ at most in the events recorded with the calls of the callbacks: the
  same callbacks have been called, in the same order.
\<close>

definition same_up_to_events :: "state \<Rightarrow> state \<Rightarrow> bool" where
  "same_up_to_events st1 st2 =
     (possibleMatches st1 = possibleMatches st2 \<and> timer st1 = timer st2 \<and> clock st1 = clock st2
      \<and> pending_timers st1 = pending_timers st2 \<and> last_timer_id st1 = last_timer_id st2
      \<and> listeners st1 = listeners st2 \<and> map fst (invoked st1) = map fst (invoked st2))"

text \<open>
  What can happen to a subscription: the target receives an event, time passes, or the
  function that \<open>tinykeys\<close> returned is called.
\<close>

datatype happening = Dispatch string Event | Elapse nat | Unsubscribe

fun happen :: "handler \<times> string \<Rightarrow> happening \<Rightarrow> state \<Rightarrow> state" where
  "happen sub (Dispatch type ev) st = snd (dispatchEvent sub type ev st)"
| "happen sub (Elapse d) st = elapse d st"
| "happen sub Unsubscribe st = unsubscribe sub st"

section \<open>Scenarios\<close>

text \<open>The binding \<^verbatim>\<open>y e e t\<close> with default options, and the state after the key y.\<close>

definition yeet :: handler where
  "yeet = createKeybindingsHandler None [(''y e e t'', \<lambda>_. Normal)] None"

definition yeet_started :: state where
  "yeet_started = snd (handle yeet (Keyboard (key_event ''y'' ''KeyY'' [])) created)"

text \<open>The same binding with \<^verbatim>\<open>allowRepeat\<close> set.\<close>

definition yeet_repeating :: handler where
  "yeet_repeating = createKeybindingsHandler None [(''y e e t'', \<lambda>_. Normal)]
     (Some \<lparr>timeout = None, allowRepeat = Some True\<rparr>)"

text \<open>
  Three bindings, the second with a callback that throws, and the state after the key a,
  which advances the first binding and completes the second.
\<close>

definition throwing :: handler where
  "throwing = createKeybindingsHandler None
     [(''a b'', \<lambda>_. Normal), (''a'', \<lambda>_. Throw), (''a c'', \<lambda>_. Normal)] None"

definition a_thrown :: state where
  "a_thrown = snd (handle throwing (Keyboard (key_event ''a'' ''KeyA'' [])) created)"

text \<open>Two bindings that the same key completes: one names the logical key, one the physical code.\<close>

definition twins :: handler where
  "twins = createKeybindingsHandler None [(''a'', \<lambda>_. Normal), (''KeyA'', \<lambda>_. Normal)] None"

text \<open>A subscription to the binding \<^verbatim>\<open>a b\<close>, and the state after the target has received the key a.\<close>

definition a_then_b :: "(handler \<times> string) \<times> state" where
  "a_then_b = tinykeys None [(''a b'', \<lambda>_. Normal)] None created"

definition a_pressed :: state where
  "a_pressed = snd (dispatchEvent (fst a_then_b) ''keydown'' (Keyboard (key_event ''a'' ''KeyA'' []))
                     (snd a_then_b))"

section \<open>Properties of the parser\<close>

lemma split_on_not_Nil [simp]: "split_on c s \<noteq> []"
  by (induction s) (auto split: list.splits)

lemma join_Cons: "ts \<noteq> [] \<Longrightarrow> join c (t # ts) = t @ c # join c ts"
  by (cases ts) auto

lemma join_split_on: "join c (split_on c s) = s"
proof (induction s)
  case Nil show ?case by simp
next
  case (Cons x xs)
  then show ?case
    by (cases "split_on c xs"; cases "tl (split_on c xs)") (auto simp: join_Cons)
qed

lemma split_on_no_sep: "t \<in> set (split_on c s) \<Longrightarrow> c \<notin> set t"
  by (induction s arbitrary: t) (auto split: if_splits list.splits)

lemma split_on_single: "c \<notin> set t \<Longrightarrow> split_on c t = [t]"
  by (induction t) auto

lemma split_on_append: "c \<notin> set t \<Longrightarrow> split_on c (t @ c # rest) = t # split_on c rest"
  by (induction t) auto

lemma split_on_join: "ts \<noteq> [] \<Longrightarrow> \<forall>t\<in>set ts. c \<notin> set t \<Longrightarrow> split_on c (join c ts) = ts"
proof (induction ts)
  case Nil
  then show ?case by simp
next
  case (Cons x xs)
  then show ?case
    by (cases "xs = []") (simp_all add: join_Cons split_on_single split_on_append)
qed

lemma split_wb_plus_not_Nil [simp]: "split_wb_plus w s \<noteq> []"
  by (induction s arbitrary: w) (auto split: list.splits)

lemma join_split_wb_plus: "join CHR ''+'' (split_wb_plus w s) = s"
proof (induction s arbitrary: w)
  case Nil show ?case by simp
next
  case (Cons x xs)
  show ?case
  proof (cases "x = CHR ''+'' \<and> w")
    case True
    then show ?thesis using Cons[of False] by (simp add: join_Cons)
  next
    case False
    obtain seg segs where s: "split_wb_plus (isWordChar x) xs = seg # segs"
      by (cases "split_wb_plus (isWordChar x) xs") auto
    show ?thesis using False Cons[of "isWordChar x"] s
      by (cases segs) auto
  qed
qed

lemma split_wb_plus_ends:
  "split_wb_plus w s = seg # segs \<Longrightarrow> segs \<noteq> [] \<Longrightarrow>
     (if seg = [] then w else isWordChar (last seg)) \<and> list_all ends_in_word (butlast segs)"
proof (induction s arbitrary: w seg segs)
  case Nil
  then show ?case by simp
next
  case (Cons c cs)
  show ?case
  proof (cases "c = CHR ''+'' \<and> w")
    case True
    with Cons.prems have seg: "seg = []" and segs: "segs = split_wb_plus False cs" by auto
    obtain seg' segs' where s': "split_wb_plus False cs = seg' # segs'"
      by (cases "split_wb_plus False cs") auto
    show ?thesis
    proof (cases "segs' = []")
      case True
      then show ?thesis using seg segs s' \<open>c = CHR ''+'' \<and> w\<close> by simp
    next
      case False
      from Cons.IH[OF s' False] show ?thesis
        using seg segs s' False \<open>c = CHR ''+'' \<and> w\<close> by (auto simp: ends_in_word_def split: if_splits)
    qed
  next
    case False
    obtain seg' segs' where s': "split_wb_plus (isWordChar c) cs = seg' # segs'"
      by (cases "split_wb_plus (isWordChar c) cs") auto
    with False Cons.prems have seg: "seg = c # seg'" and segs: "segs' = segs" by auto
    from Cons.IH[OF s'] Cons.prems(2) segs show ?thesis
      using seg by (auto split: if_splits)
  qed
qed

lemma split_wb_plus_no_wb:
  "split_wb_plus w s = seg # segs \<Longrightarrow> no_wb_plus w seg \<and> list_all (no_wb_plus False) segs"
proof (induction s arbitrary: w seg segs)
  case Nil
  then show ?case by auto
next
  case (Cons c cs)
  show ?case
  proof (cases "c = CHR ''+'' \<and> w")
    case True
    with Cons.prems have seg: "seg = []" and segs: "segs = split_wb_plus False cs" by auto
    obtain seg' segs' where s': "split_wb_plus False cs = seg' # segs'"
      by (cases "split_wb_plus False cs") auto
    from Cons.IH[OF s'] show ?thesis using seg segs s' by simp
  next
    case False
    obtain seg' segs' where s': "split_wb_plus (isWordChar c) cs = seg' # segs'"
      by (cases "split_wb_plus (isWordChar c) cs") auto
    with False Cons.prems have seg: "seg = c # seg'" and segs: "segs' = segs" by auto
    from Cons.IH[OF s'] show ?thesis using seg segs False by auto
  qed
qed

lemma split_wb_plus_subset: "seg \<in> set (split_wb_plus w s) \<Longrightarrow> set seg \<subseteq> set s"
proof (induction s arbitrary: w seg)
  case Nil
  then show ?case by simp
next
  case (Cons c cs)
  show ?case
  proof (cases "c = CHR ''+'' \<and> w")
    case True
    with Cons.prems have "seg = [] \<or> seg \<in> set (split_wb_plus False cs)" by auto
    with Cons.IH show ?thesis by auto
  next
    case False
    obtain seg' segs' where s': "split_wb_plus (isWordChar c) cs = seg' # segs'"
      by (cases "split_wb_plus (isWordChar c) cs") auto
    with False Cons.prems have "seg = c # seg' \<or> seg \<in> set segs'" by auto
    moreover have "set seg' \<subseteq> set cs" using Cons.IH[of seg' "isWordChar c"] s' by simp
    moreover have "seg \<in> set segs' \<Longrightarrow> set seg \<subseteq> set cs"
      using Cons.IH[of seg "isWordChar c"] s' by simp
    ultimately show ?thesis by auto
  qed
qed

lemma token_segments_split: "CHR '' '' \<notin> set t \<Longrightarrow> token_segments (split_wb_plus False t)"
proof -
  assume t: "CHR '' '' \<notin> set t"
  obtain seg segs where s: "split_wb_plus False t = seg # segs"
    by (cases "split_wb_plus False t") auto
  have a: "list_all (no_wb_plus False) (seg # segs)"
    using split_wb_plus_no_wb[OF s] by simp
  have b: "list_all ends_in_word (butlast (seg # segs))"
  proof (cases "segs = []")
    case True then show ?thesis by simp
  next
    case False
    from split_wb_plus_ends[OF s False] False show ?thesis
      by (auto simp: ends_in_word_def split: if_splits)
  qed
  have c: "list_all (\<lambda>seg. CHR '' '' \<notin> set seg) (seg # segs)"
    unfolding list_all_iff using split_wb_plus_subset[of _ False t] t s by (metis subsetD)
  show ?thesis unfolding token_segments_def s using a b c by simp
qed

lemma split_wb_plus_single: "no_wb_plus w x \<Longrightarrow> split_wb_plus w x = [x]"
  by (induction x arbitrary: w) auto

lemma split_wb_plus_append:
  "no_wb_plus w x \<Longrightarrow> (if x = [] then w else isWordChar (last x)) \<Longrightarrow>
   split_wb_plus w (x @ CHR ''+'' # rest) = x # split_wb_plus False rest"
  by (induction x arbitrary: w) (auto split: if_splits)

lemma split_wb_plus_join:
  "segs \<noteq> [] \<Longrightarrow> list_all (no_wb_plus False) segs \<Longrightarrow> list_all ends_in_word (butlast segs)
   \<Longrightarrow> split_wb_plus False (join CHR ''+'' segs) = segs"
proof (induction segs)
  case Nil
  then show ?case by simp
next
  case (Cons x xs)
  show ?case
  proof (cases "xs = []")
    case True
    with Cons.prems show ?thesis by (simp add: split_wb_plus_single)
  next
    case False
    with Cons show ?thesis
      by (simp add: join_Cons split_wb_plus_append ends_in_word_def)
  qed
qed

lemma set_join: "set (join c xs) \<subseteq> insert c (\<Union>(set ` set xs))"
proof (induction xs)
  case Nil
  then show ?case by simp
next
  case (Cons x xs)
  then show ?case by (cases "xs = []") (auto simp: join_Cons)
qed

lemma parsePress_join:
  "token_segments segs \<Longrightarrow> parsePress nav (join CHR ''+'' segs) = press_of_segments nav segs"
  by (simp add: parsePress_def press_of_segments_def token_segments_def split_wb_plus_join)

lemma token_no_space: "token_segments segs \<Longrightarrow> CHR '' '' \<notin> set (join CHR ''+'' segs)"
  using set_join[of "CHR ''+''" segs] by (auto simp: token_segments_def list_all_iff)

lemma tokens_of_exists:
  "tokens_of str (map (split_wb_plus False) (split_on CHR '' '' (trim str)))"
proof -
  let ?toks = "split_on CHR '' '' (trim str)"
  have "map (join CHR ''+'') (map (split_wb_plus False) ?toks) = ?toks"
    by (simp add: o_def join_split_wb_plus)
  moreover have "list_all token_segments (map (split_wb_plus False) ?toks)"
    by (auto simp: list_all_iff dest: split_on_no_sep intro!: token_segments_split)
  ultimately show ?thesis
    by (simp add: tokens_of_def join_split_on)
qed

lemma tokens_of_parse:
  assumes "tokens_of str tss"
  shows "parseKeybinding nav str = map (press_of_segments nav) tss"
proof -
  let ?toks = "map (join CHR ''+'') tss"
  from assms have ne: "?toks \<noteq> []" and all: "list_all token_segments tss"
    and tr: "trim str = join CHR '' '' ?toks"
    by (auto simp: tokens_of_def)
  have "\<forall>t\<in>set ?toks. CHR '' '' \<notin> set t"
    using all token_no_space by (auto simp: list_all_iff)
  then have "split_on CHR '' '' (trim str) = ?toks"
    using ne tr split_on_join by metis
  moreover have "map (parsePress nav) ?toks = map (press_of_segments nav) tss"
    using all by (auto simp: list_all_iff parsePress_join)
  ultimately show ?thesis by (simp add: parseKeybinding_def)
qed

text \<open>
  Claim C3. Every binding string has a reading as tokens with one space between them (after
  the white space at its ends is removed), each token being segments with a \<^verbatim>\<open>+\<close> at a word
  boundary between them; and for every such reading \<open>parseKeybinding\<close> returns one press per
  token, in the order of the tokens, whose modifiers are the segments before the last, with
  \<^verbatim>\<open>$mod\<close> replaced by the modifier of the platform, and whose key is the last segment as it
  is. No name is validated and no input is refused: a token may be empty and has then no
  modifier and the empty key.
\<close>

theorem parseKeybinding_tokens:
  "(\<exists>tss. tokens_of str tss) \<and>
   (\<forall>tss. tokens_of str tss \<longrightarrow>
      parseKeybinding navigator str = map (press_of_segments navigator) tss)"
  using tokens_of_exists tokens_of_parse by blast

text \<open>
  The reading of one binding string with a literal \<^verbatim>\<open>+\<close> as a key and with two spaces in
  a row, and what \<open>parseKeybinding\<close> returns for it.
\<close>

theorem parseKeybinding_tokens_witness:
  "tokens_of '' $mod+Shift++  a '' [[''$mod'', ''Shift'', ''+''], [''''], [''a'']] \<and>
   parseKeybinding None '' $mod+Shift++  a '' =
     [([''Control'', ''Shift''], ''+''), ([], ''''), ([], ''a'')]"
proof -
  have t: "tokens_of '' $mod+Shift++  a '' [[''$mod'', ''Shift'', ''+''], [''''], [''a'']]"
    by (simp add: tokens_of_def token_segments_def ends_in_word_def isWordChar_def
        trim_def isWhiteSpace_def)
  from parseKeybinding_tokens[of "'' $mod+Shift++  a ''" None, THEN conjunct2, rule_format, OF t] t
  show ?thesis by (simp add: press_of_segments_def MOD_def)
qed

section \<open>Properties of the press matcher\<close>

lemma truthy_find:
  "[] \<notin> set xs \<Longrightarrow> truthy (find P xs) = (\<exists>x\<in>set xs. P x)"
  by (induction xs) (auto simp: truthy_def)

lemma parsePress_mods_nonempty: "[] \<notin> set (fst (parsePress nav t))"
proof -
  obtain seg segs where s: "split_wb_plus False t = seg # segs"
    by (cases "split_wb_plus False t") auto
  have "MOD nav \<noteq> []" by (simp add: MOD_def split: option.splits)
  moreover have "[] \<notin> set (butlast (seg # segs))"
  proof (cases "segs = []")
    case True then show ?thesis by simp
  next
    case False
    from split_wb_plus_ends[OF s False] False show ?thesis
      by (auto simp: list_all_iff ends_in_word_def split: if_splits)
  qed
  ultimately show ?thesis by (auto simp: parsePress_def s Let_def)
qed

lemma parseKeybinding_mods_nonempty:
  "press \<in> set (parseKeybinding nav str) \<Longrightarrow> [] \<notin> set (fst press)"
  using parsePress_mods_nonempty by (auto simp: parseKeybinding_def)

lemma match_iff:
  assumes "[] \<notin> set (fst press)"
  shows "match event press \<longleftrightarrow>
           key_matches event press
         \<and> (\<forall>m\<in>set (fst press). getModifierState event m)
         \<and> (\<forall>m\<in>set KEYBINDING_MODIFIER_KEYS.
              getModifierState event m \<longrightarrow> m \<in> set (fst press) \<or> m = snd press)"
proof -
  have k: "[] \<notin> set KEYBINDING_MODIFIER_KEYS" by (simp add: KEYBINDING_MODIFIER_KEYS_def)
  have a: "truthy (find (\<lambda>m. \<not> getModifierState event m) (fst press))
           = (\<exists>m\<in>set (fst press). \<not> getModifierState event m)"
    using assms by (rule truthy_find)
  have b: "truthy (find (\<lambda>m. m \<notin> set (fst press) \<and> snd press \<noteq> m \<and> getModifierState event m)
                     KEYBINDING_MODIFIER_KEYS)
           = (\<exists>m\<in>set KEYBINDING_MODIFIER_KEYS.
                 m \<notin> set (fst press) \<and> snd press \<noteq> m \<and> getModifierState event m)"
    using k by (rule truthy_find)
  show ?thesis unfolding match_def key_matches_def a b by blast
qed

lemma getModifierState_key_event [simp]: "getModifierState (key_event k c held) m = (m \<in> set held)"
  by (simp add: getModifierState_def key_event_def)

lemma key_key_event [simp]: "key (key_event k c held) = k" "code (key_event k c held) = c"
  "repeat (key_event k c held) = False"
  by (simp_all add: key_event_def)

lemma active_modifiers_key_event [simp]: "active_modifiers (key_event k c held) = set held"
  by (simp add: active_modifiers_def)

text \<open>
  Claim C1 says that an event presenting a strict superset of the modifiers of a single-chord
  binding does not match. For the binding \<^verbatim>\<open>Shift+Control\<close> the event of pressing Control
  while Shift is held presents Shift and Control, a strict superset of the modifier set
  \<open>{Shift}\<close>, and matches: the modifier that is the key of the press is exempt.
\<close>

theorem superset_counterexample:
  "parseKeybinding None ''Shift+Control'' = [([''Shift''], ''Control'')]
   \<and> set [''Shift''] \<subset> active_modifiers (key_event ''Control'' ''ControlLeft'' [''Shift'', ''Control''])
   \<and> match (key_event ''Control'' ''ControlLeft'' [''Shift'', ''Control'']) ([''Shift''], ''Control'')"
  by (auto simp: parseKeybinding_def parsePress_def trim_def isWhiteSpace_def isWordChar_def
      match_def truthy_def KEYBINDING_MODIFIER_KEYS_def toUpperCase_def)

text \<open>
  Claim C1, amended. For every press that \<open>parseKeybinding\<close> returns and every keyboard event,
  \<open>match\<close> accepts the event if and only if the key of the press equals the logical key of the
  event without regard to case or its physical code exactly, every modifier of the press is
  active on the event, and no modifier among Shift, Meta, Alt and Control is active on the
  event while being neither a modifier of the press nor its key. So an event with the key of
  the press that presents exactly the modifiers of the press matches; one that presents a
  strict subset of them does not match; and one that presents a strict superset does not match
  if one of the additional modifiers is among Shift, Meta, Alt and Control and is not the key
  of the press.
\<close>

theorem match_parsed_press:
  assumes "press \<in> set (parseKeybinding navigator str)"
  shows "(match event press \<longleftrightarrow>
            key_matches event press
          \<and> (\<forall>m\<in>set (fst press). getModifierState event m)
          \<and> (\<forall>m\<in>set KEYBINDING_MODIFIER_KEYS.
               getModifierState event m \<longrightarrow> m \<in> set (fst press) \<or> m = snd press))
       \<and> (key_matches event press \<and> active_modifiers event = set (fst press)
            \<longrightarrow> match event press)
       \<and> (key_matches event press \<and> active_modifiers event \<subset> set (fst press)
            \<longrightarrow> \<not> match event press)
       \<and> (key_matches event press \<and> set (fst press) \<subset> active_modifiers event
          \<and> (\<exists>m\<in>set KEYBINDING_MODIFIER_KEYS.
                m \<in> active_modifiers event \<and> m \<notin> set (fst press) \<and> m \<noteq> snd press)
            \<longrightarrow> \<not> match event press)"
proof -
  have ne: "[] \<notin> set (fst press)"
    using assms by (rule parseKeybinding_mods_nonempty)
  note iff = match_iff[OF ne, of event]
  have 1: "key_matches event press \<and> active_modifiers event = set (fst press) \<longrightarrow> match event press"
    unfolding iff active_modifiers_def by blast
  have 2: "key_matches event press \<and> active_modifiers event \<subset> set (fst press) \<longrightarrow> \<not> match event press"
    unfolding iff active_modifiers_def by blast
  have 3: "key_matches event press \<and> set (fst press) \<subset> active_modifiers event
          \<and> (\<exists>m\<in>set KEYBINDING_MODIFIER_KEYS.
                m \<in> active_modifiers event \<and> m \<notin> set (fst press) \<and> m \<noteq> snd press)
            \<longrightarrow> \<not> match event press"
    unfolding iff active_modifiers_def by blast
  from iff 1 2 3 show ?thesis by blast
qed

lemma parse_Shift_d: "parseKeybinding None ''Shift+d'' = [([''Shift''], ''d'')]"
  by (simp add: parseKeybinding_def parsePress_def trim_def isWhiteSpace_def isWordChar_def)

text \<open>
  The binding \<^verbatim>\<open>Shift+d\<close>: the key D with Shift held matches, with Shift and Control held it
  does not, and with no modifier held it does not.
\<close>

theorem match_parsed_press_witness:
  "([''Shift''], ''d'') \<in> set (parseKeybinding None ''Shift+d'')
   \<and> match (key_event ''D'' ''KeyD'' [''Shift'']) ([''Shift''], ''d'')
   \<and> \<not> match (key_event ''D'' ''KeyD'' [''Shift'', ''Control'']) ([''Shift''], ''d'')
   \<and> \<not> match (key_event ''d'' ''KeyD'' []) ([''Shift''], ''d'')"
proof -
  have p: "([''Shift''], ''d'') \<in> set (parseKeybinding None ''Shift+d'')"
    by (simp add: parse_Shift_d)
  have k: "key_matches (key_event k ''KeyD'' held) ([''Shift''], ''d'')" if "k = ''D'' \<or> k = ''d''"
    for k held using that by (auto simp: key_matches_def toUpperCase_def)
  have "match (key_event ''D'' ''KeyD'' [''Shift'']) ([''Shift''], ''d'')"
    using match_parsed_press[OF p, of "key_event ''D'' ''KeyD'' [''Shift'']"] k by simp
  moreover have "\<not> match (key_event ''D'' ''KeyD'' [''Shift'', ''Control'']) ([''Shift''], ''d'')"
    using match_parsed_press[OF p, of "key_event ''D'' ''KeyD'' [''Shift'', ''Control'']"] k
    by (auto simp: KEYBINDING_MODIFIER_KEYS_def)
  moreover have "\<not> match (key_event ''d'' ''KeyD'' []) ([''Shift''], ''d'')"
    using match_parsed_press[OF p, of "key_event ''d'' ''KeyD'' []"] k by auto
  ultimately show ?thesis using p by blast
qed

text \<open>
  Claim C9. In the check for extraneous modifiers the key of the press is compared with the
  name of the modifier as it is: an active modifier among Shift, Meta, Alt and Control that is
  not a modifier of the press rejects the event unless the key of the press is exactly its
  name. The key \<^verbatim>\<open>control\<close> passes the comparison with the logical key \<^verbatim>\<open>Control\<close>, which
  disregards case, yet does not exempt the active Control; the key \<^verbatim>\<open>Control\<close> does.
\<close>

theorem extraneous_check_case_sensitive:
  "(m \<in> set KEYBINDING_MODIFIER_KEYS \<and> getModifierState event m \<and> m \<notin> set mods \<and> k \<noteq> m
      \<longrightarrow> \<not> match event (mods, k))
   \<and> toUpperCase ''control'' = toUpperCase (key (key_event ''Control'' ''ControlLeft'' [''Control'']))
   \<and> \<not> match (key_event ''Control'' ''ControlLeft'' [''Control'']) ([], ''control'')
   \<and> match (key_event ''Control'' ''ControlLeft'' [''Control'']) ([], ''Control'')"
proof -
  have "\<not> match event (mods, k)"
    if "m \<in> set KEYBINDING_MODIFIER_KEYS" "getModifierState event m" "m \<notin> set mods" "k \<noteq> m"
  proof -
    have "[] \<notin> set KEYBINDING_MODIFIER_KEYS" by (simp add: KEYBINDING_MODIFIER_KEYS_def)
    then have "truthy (find (\<lambda>m. m \<notin> set mods \<and> k \<noteq> m \<and> getModifierState event m)
                 KEYBINDING_MODIFIER_KEYS)"
      using that by (subst truthy_find) auto
    then show ?thesis by (simp add: match_def)
  qed
  moreover have "toUpperCase ''control'' = toUpperCase (key (key_event ''Control'' ''ControlLeft'' [''Control'']))"
    by (simp add: toUpperCase_def)
  moreover have "\<not> match (key_event ''Control'' ''ControlLeft'' [''Control'']) ([], ''control'')"
    by (simp add: match_def truthy_def KEYBINDING_MODIFIER_KEYS_def toUpperCase_def)
  moreover have "match (key_event ''Control'' ''ControlLeft'' [''Control'']) ([], ''Control'')"
    by (simp add: match_def truthy_def KEYBINDING_MODIFIER_KEYS_def toUpperCase_def)
  ultimately show ?thesis by blast
qed

text \<open>The key \<^verbatim>\<open>alt\<close> does not exempt an active Alt.\<close>

theorem extraneous_check_case_sensitive_witness:
  "''Alt'' \<in> set KEYBINDING_MODIFIER_KEYS
   \<and> getModifierState (key_event ''Alt'' ''AltLeft'' [''Shift'', ''Alt'']) ''Alt''
   \<and> ''Alt'' \<notin> set [''Shift''] \<and> ''alt'' \<noteq> ''Alt''
   \<and> \<not> match (key_event ''Alt'' ''AltLeft'' [''Shift'', ''Alt'']) ([''Shift''], ''alt'')"
proof -
  have h: "''Alt'' \<in> set KEYBINDING_MODIFIER_KEYS
     \<and> getModifierState (key_event ''Alt'' ''AltLeft'' [''Shift'', ''Alt'']) ''Alt''
     \<and> ''Alt'' \<notin> set [''Shift''] \<and> ''alt'' \<noteq> ''Alt''"
    by (simp add: KEYBINDING_MODIFIER_KEYS_def)
  from extraneous_check_case_sensitive[of "''Alt''" "key_event ''Alt'' ''AltLeft'' [''Shift'', ''Alt'']"
      "[''Shift'']" "''alt''", THEN conjunct1] h
  show ?thesis by blast
qed

text \<open>
  Claim C10. \<^verbatim>\<open>$mod\<close> is replaced by the modifier of the platform only among the segments
  before the last: a token whose last segment is \<^verbatim>\<open>$mod\<close> has the key \<^verbatim>\<open>$mod\<close> as it is,
  and the binding \<^verbatim>\<open>$mod\<close> alone parses to one press with no modifier and the key
  \<^verbatim>\<open>$mod\<close>. The modifier of the platform is never \<^verbatim>\<open>$mod\<close> itself.
\<close>

theorem mod_alias_only_in_modifier_position:
  "parseKeybinding navigator ''$mod'' = [([], ''$mod'')]
   \<and> parseKeybinding navigator ''$mod+$mod'' = [([MOD navigator], ''$mod'')]
   \<and> MOD navigator \<noteq> ''$mod''
   \<and> (token_segments segs \<and> last segs = ''$mod'' \<longrightarrow>
        parsePress navigator (join CHR ''+'' segs)
          = (map (\<lambda>m. if m = ''$mod'' then MOD navigator else m) (butlast segs), ''$mod''))"
proof -
  have "parseKeybinding navigator ''$mod'' = [([], ''$mod'')]"
    by (simp add: parseKeybinding_def parsePress_def trim_def isWhiteSpace_def isWordChar_def)
  moreover have "parseKeybinding navigator ''$mod+$mod'' = [([MOD navigator], ''$mod'')]"
    by (simp add: parseKeybinding_def parsePress_def trim_def isWhiteSpace_def isWordChar_def)
  moreover have "MOD navigator \<noteq> ''$mod''"
    by (simp add: MOD_def split: option.splits)
  moreover have "token_segments segs \<and> last segs = ''$mod'' \<longrightarrow>
        parsePress navigator (join CHR ''+'' segs)
          = (map (\<lambda>m. if m = ''$mod'' then MOD navigator else m) (butlast segs), ''$mod'')"
    using parsePress_join[of segs navigator] by (auto simp: press_of_segments_def)
  ultimately show ?thesis by blast
qed

text \<open>The token \<^verbatim>\<open>Shift+$mod+$mod\<close> on an Apple platform.\<close>

theorem mod_alias_only_in_modifier_position_witness:
  "token_segments [''Shift'', ''$mod'', ''$mod''] \<and> last [''Shift'', ''$mod'', ''$mod''] = ''$mod''
   \<and> parsePress (Some ''MacIntel'') ''Shift+$mod+$mod'' = ([''Shift'', ''Meta''], ''$mod'')"
proof -
  have h: "token_segments [''Shift'', ''$mod'', ''$mod''] \<and> last [''Shift'', ''$mod'', ''$mod''] = ''$mod''"
    by (simp add: token_segments_def ends_in_word_def isWordChar_def)
  from mod_alias_only_in_modifier_position[of "Some ''MacIntel''" "[''Shift'', ''$mod'', ''$mod'']",
      THEN conjunct2, THEN conjunct2, THEN conjunct2] h
  show ?thesis by (simp add: MOD_def)
qed

section \<open>Properties of the handler\<close>

subsection \<open>One binding and the loop over the bindings\<close>

lemma keyBinding_step_spec:
  assumes "remaining_presses (fst kb) (possibleMatches st i) \<noteq> []"
  shows "keyBinding_step event i kb st =
     (if completes event (fst kb) (possibleMatches st i) then snd kb event else Normal,
      st\<lparr>possibleMatches := (possibleMatches st)(i := progress_after event (fst kb) (possibleMatches st i)),
         invoked := invoked st @ (if completes event (fst kb) (possibleMatches st i) then [(i, event)] else [])\<rparr>)"
proof -
  obtain p rest where r: "remaining_presses (fst kb) (possibleMatches st i) = p # rest"
    using assms by (cases "remaining_presses (fst kb) (possibleMatches st i)") auto
  then have r': "(case possibleMatches st i of None \<Rightarrow> fst kb | Some p \<Rightarrow> p) = p # rest"
    by (simp add: remaining_presses_def)
  show ?thesis
    unfolding keyBinding_step_def Let_def r' completes_def progress_after_def r
    by (cases rest) (auto simp: fun_upd_idem)
qed

lemma keyBinding_step_frame:
  assumes "keyBinding_step event i kb st = (c, st')"
  shows "timer st' = timer st" "clock st' = clock st" "pending_timers st' = pending_timers st"
    "last_timer_id st' = last_timer_id st" "listeners st' = listeners st"
    "j \<noteq> i \<Longrightarrow> possibleMatches st' j = possibleMatches st j"
    "invoked st' = invoked st \<or> (invoked st' = invoked st @ [(i, event)] \<and> possibleMatches st' i = None)"
  using assms
  by (auto simp: keyBinding_step_def Let_def split: list.splits if_splits)

lemma keyBinding_step_table:
  assumes "keyBinding_step event i kb st = (c, st')"
  shows "possibleMatches st' = possibleMatches st
       \<or> possibleMatches st' = (possibleMatches st)(i := None)
       \<or> (\<exists>p rest. rest \<noteq> []
             \<and> (case possibleMatches st i of Some p \<Rightarrow> p | None \<Rightarrow> fst kb) = p # rest
             \<and> possibleMatches st' = (possibleMatches st)(i \<mapsto> rest))"
  using assms
  by (auto simp: keyBinding_step_def Let_def split: list.splits if_splits)

lemma keyBinding_step_entries_ok:
  assumes "keyBinding_step event i kb st = (c, st')" "entries_ok seqs st"
    "i < length seqs" "seqs ! i = fst kb"
  shows "entries_ok seqs st'"
proof -
  let ?rem = "case possibleMatches st i of Some p \<Rightarrow> p | None \<Rightarrow> fst kb"
  have suffix: "\<exists>done. seqs ! i = done @ ?rem"
  proof (cases "possibleMatches st i")
    case None
    then show ?thesis using assms(4) by simp
  next
    case (Some p)
    then show ?thesis using assms(2) by (auto simp: entries_ok_def)
  qed
  from keyBinding_step_table[OF assms(1)]
  consider "possibleMatches st' = possibleMatches st"
    | "possibleMatches st' = (possibleMatches st)(i := None)"
    | p rest where "rest \<noteq> []" "?rem = p # rest" "possibleMatches st' = (possibleMatches st)(i \<mapsto> rest)"
    by blast
  then show ?thesis
  proof cases
    case 1
    then show ?thesis using assms(2) by (simp add: entries_ok_def)
  next
    case 2
    then show ?thesis using assms(2) by (simp add: entries_ok_def)
  next
    case 3
    from suffix 3(2) obtain d where "seqs ! i = (d @ [p]) @ rest" by auto
    then have "\<exists>done. done \<noteq> [] \<and> seqs ! i = done @ rest" by blast
    then show ?thesis using assms(2,3) 3(1,3) by (simp add: entries_ok_def)
  qed
qed

lemma forEach_frame:
  assumes "forEach_keyBinding event i kbs st = (c, st')"
  shows "timer st' = timer st \<and> clock st' = clock st \<and> pending_timers st' = pending_timers st
    \<and> last_timer_id st' = last_timer_id st \<and> listeners st' = listeners st
    \<and> (\<forall>j. j < i \<or> i + length kbs \<le> j \<longrightarrow> possibleMatches st' j = possibleMatches st j)
    \<and> (\<exists>new. invoked st' = invoked st @ new
          \<and> (\<forall>(j, e) \<in> set new. i \<le> j \<and> j < i + length kbs \<and> e = event
                \<and> possibleMatches st' j = None))"
  using assms
proof (induction kbs arbitrary: i st)
  case Nil
  then show ?case by simp
next
  case (Cons kb rest)
  obtain c1 st1 where s: "keyBinding_step event i kb st = (c1, st1)"
    by (cases "keyBinding_step event i kb st")
  note f = keyBinding_step_frame[OF s]
  show ?case
  proof (cases c1)
    case Throw
    with Cons.prems s have "c = Throw" "st' = st1" by auto
    then show ?thesis using f by auto
  next
    case Normal
    with Cons.prems s have r: "forEach_keyBinding event (Suc i) rest st1 = (c, st')" by simp
    from Cons.IH[OF r] obtain new where
      fr: "timer st' = timer st1" "clock st' = clock st1" "pending_timers st' = pending_timers st1"
        "last_timer_id st' = last_timer_id st1" "listeners st' = listeners st1"
        "\<forall>j. j < Suc i \<or> Suc i + length rest \<le> j \<longrightarrow> possibleMatches st' j = possibleMatches st1 j"
      and new: "invoked st' = invoked st1 @ new"
        "\<forall>(j, e) \<in> set new. Suc i \<le> j \<and> j < Suc i + length rest \<and> e = event
                \<and> possibleMatches st' j = None"
      by blast
    have pm: "\<forall>j. j < i \<or> i + length (kb # rest) \<le> j \<longrightarrow> possibleMatches st' j = possibleMatches st j"
      using fr(6) f(6) by auto
    have i_same: "possibleMatches st' i = possibleMatches st1 i" using fr(6) by simp
    from f(7) have "\<exists>new'. invoked st' = invoked st @ new'
          \<and> (\<forall>(j, e) \<in> set new'. i \<le> j \<and> j < i + length (kb # rest) \<and> e = event
                \<and> possibleMatches st' j = None)"
    proof
      assume "invoked st1 = invoked st"
      then have "invoked st' = invoked st @ new" using new(1) by simp
      moreover have "\<forall>(j, e) \<in> set new. i \<le> j \<and> j < i + length (kb # rest) \<and> e = event
                \<and> possibleMatches st' j = None" using new(2) by auto
      ultimately show ?thesis by blast
    next
      assume a: "invoked st1 = invoked st @ [(i, event)] \<and> possibleMatches st1 i = None"
      then have "invoked st' = invoked st @ ((i, event) # new)" using new(1) by simp
      moreover have "\<forall>(j, e) \<in> set ((i, event) # new). i \<le> j \<and> j < i + length (kb # rest) \<and> e = event
                \<and> possibleMatches st' j = None" using new(2) a i_same by auto
      ultimately show ?thesis by blast
    qed
    then show ?thesis using fr f pm by simp
  qed
qed

lemma forEach_entries_ok:
  assumes "forEach_keyBinding event i kbs st = (c, st')" "entries_ok seqs st"
    "map fst kbs = drop i seqs"
  shows "entries_ok seqs st'"
  using assms
proof (induction kbs arbitrary: i st)
  case Nil
  then show ?case by simp
next
  case (Cons kb rest)
  obtain c1 st1 where s: "keyBinding_step event i kb st = (c1, st1)"
    by (cases "keyBinding_step event i kb st")
  from Cons.prems(3) have i: "i < length seqs"
    by (metis drop_eq_Nil list.simps(3) list.map_disc_iff not_le)
  then have d: "drop i seqs = seqs ! i # drop (Suc i) seqs" by (simp add: Cons_nth_drop_Suc)
  with Cons.prems(3) have k: "seqs ! i = fst kb" and r: "map fst rest = drop (Suc i) seqs" by auto
  have ok1: "entries_ok seqs st1"
    using keyBinding_step_entries_ok[OF s Cons.prems(2) i k] .
  show ?case
  proof (cases c1)
    case Throw
    with Cons.prems(1) s ok1 show ?thesis by auto
  next
    case Normal
    with Cons.prems(1) s have "forEach_keyBinding event (Suc i) rest st1 = (c, st')" by simp
    from Cons.IH[OF this ok1 r] show ?thesis .
  qed
qed

lemma forEach_append:
  "forEach_keyBinding event i (xs @ ys) st =
     (case forEach_keyBinding event i xs st of
        (Normal, st1) \<Rightarrow> forEach_keyBinding event (i + length xs) ys st1
      | (Throw, st1) \<Rightarrow> (Throw, st1))"
  by (induction xs arbitrary: i st) (auto split: prod.splits completion.splits)

lemma completion_not_Throw: "(c \<noteq> Throw) = (c = Normal)"
  by (cases c) auto

lemma completes_progress:
  "completes event sequence entry \<Longrightarrow> progress_after event sequence entry = None"
  by (auto simp: completes_def progress_after_def Let_def)

lemma forEach_prefix:
  assumes "\<forall>j. i \<le> j \<and> j < m \<longrightarrow> remaining_presses (fst (kbs ! j)) (possibleMatches st j) \<noteq> []"
    and "\<forall>j. i \<le> j \<and> j < m \<longrightarrow> \<not> callback_throws event kbs st j"
    and "i \<le> m" and "m \<le> length kbs"
  shows "forEach_keyBinding event i (drop i (take m kbs)) st =
     (Normal,
      st\<lparr>possibleMatches :=
           (\<lambda>j. if i \<le> j \<and> j < m then progress_after event (fst (kbs ! j)) (possibleMatches st j)
                else possibleMatches st j),
         invoked := invoked st @ map (\<lambda>j. (j, event))
           (filter (\<lambda>j. completes event (fst (kbs ! j)) (possibleMatches st j)) [i..<m])\<rparr>)"
  using assms
proof (induction "m - i" arbitrary: i st)
  case 0
  then have "i = m" by simp
  moreover have "(\<lambda>j. if m \<le> j \<and> j < m
              then progress_after event (fst (kbs ! j)) (possibleMatches st j)
              else possibleMatches st j) = possibleMatches st"
    by (auto simp: fun_eq_iff)
  ultimately show ?case by simp
next
  case (Suc d)
  then have im: "i < m" by simp
  let ?kb = "kbs ! i"
  let ?comp = "completes event (fst ?kb) (possibleMatches st i)"
  define st1 where "st1 = st\<lparr>possibleMatches :=
        (possibleMatches st)(i := progress_after event (fst ?kb) (possibleMatches st i)),
      invoked := invoked st @ (if ?comp then [(i, event)] else [])\<rparr>"
  have d: "drop i (take m kbs) = ?kb # drop (Suc i) (take m kbs)"
    using im Suc.prems(4) by (simp add: Cons_nth_drop_Suc[symmetric])
  have wf_i: "remaining_presses (fst ?kb) (possibleMatches st i) \<noteq> []"
    using Suc.prems(1) im by simp
  have "\<not> callback_throws event kbs st i" using Suc.prems(2) im by simp
  then have nothrow: "(if ?comp then snd ?kb event else Normal) = Normal"
    by (auto simp: callback_throws_def completion_not_Throw)
  have step: "keyBinding_step event i ?kb st = (Normal, st1)"
    unfolding keyBinding_step_spec[OF wf_i] nothrow st1_def ..
  have pm1: "possibleMatches st1 j = possibleMatches st j" if "j \<noteq> i" for j
    using that by (simp add: st1_def)
  have 1: "\<forall>j. Suc i \<le> j \<and> j < m \<longrightarrow> remaining_presses (fst (kbs ! j)) (possibleMatches st1 j) \<noteq> []"
    using Suc.prems(1) pm1 by auto
  have 2: "\<forall>j. Suc i \<le> j \<and> j < m \<longrightarrow> \<not> callback_throws event kbs st1 j"
    using Suc.prems(2) pm1 by (auto simp: callback_throws_def)
  have 3: "d = m - Suc i" using Suc.hyps(2) by simp
  have 4: "Suc i \<le> m" using im by simp
  note IH = Suc.hyps(1)[OF 3 1 2 4 Suc.prems(4)]
  have F: "(\<lambda>j. if Suc i \<le> j \<and> j < m
                then progress_after event (fst (kbs ! j)) (possibleMatches st1 j)
                else possibleMatches st1 j)
         = (\<lambda>j. if i \<le> j \<and> j < m then progress_after event (fst (kbs ! j)) (possibleMatches st j)
                else possibleMatches st j)"
  proof
    fix j
    show "(if Suc i \<le> j \<and> j < m
                then progress_after event (fst (kbs ! j)) (possibleMatches st1 j)
                else possibleMatches st1 j)
         = (if i \<le> j \<and> j < m then progress_after event (fst (kbs ! j)) (possibleMatches st j)
                else possibleMatches st j)"
    proof (cases "j = i")
      case True
      then show ?thesis using im by (simp add: st1_def)
    next
      case False
      then show ?thesis using pm1[OF False] by auto
    qed
  qed
  have "filter (\<lambda>j. completes event (fst (kbs ! j)) (possibleMatches st1 j)) [Suc i..<m]
      = filter (\<lambda>j. completes event (fst (kbs ! j)) (possibleMatches st j)) [Suc i..<m]"
    using pm1 by (intro filter_cong) auto
  then have L: "invoked st1 @ map (\<lambda>j. (j, event))
           (filter (\<lambda>j. completes event (fst (kbs ! j)) (possibleMatches st1 j)) [Suc i..<m])
       = invoked st @ map (\<lambda>j. (j, event))
           (filter (\<lambda>j. completes event (fst (kbs ! j)) (possibleMatches st j)) [i..<m])"
    using im by (simp add: st1_def upt_conv_Cons)
  have "forEach_keyBinding event i (drop i (take m kbs)) st
      = forEach_keyBinding event (Suc i) (drop (Suc i) (take m kbs)) st1"
    unfolding d by (simp add: step)
  also have "\<dots> = (Normal, st1\<lparr>possibleMatches :=
           (\<lambda>j. if i \<le> j \<and> j < m then progress_after event (fst (kbs ! j)) (possibleMatches st j)
                else possibleMatches st j),
         invoked := invoked st @ map (\<lambda>j. (j, event))
           (filter (\<lambda>j. completes event (fst (kbs ! j)) (possibleMatches st j)) [i..<m])\<rparr>)"
    unfolding IH F L ..
  finally show ?case by (simp add: st1_def)
qed

lemma forEach_all_normal:
  assumes "all_remaining kbs st" "\<forall>j<length kbs. \<not> callback_throws event kbs st j"
  shows "forEach_keyBinding event 0 kbs st = (Normal, evaluated_state event kbs (length kbs) st)"
  using forEach_prefix[of 0 "length kbs" kbs st event] assms
  by (simp add: all_remaining_def evaluated_state_def)

lemma forEach_first_throw:
  assumes "all_remaining kbs st" "k < length kbs" "\<forall>j<k. \<not> callback_throws event kbs st j"
    "callback_throws event kbs st k"
  shows "forEach_keyBinding event 0 kbs st = (Throw, evaluated_state event kbs (Suc k) st)"
proof -
  let ?st1 = "evaluated_state event kbs k st"
  have pre: "forEach_keyBinding event 0 (take k kbs) st = (Normal, ?st1)"
    using forEach_prefix[of 0 k kbs st event] assms(1,2,3)
    by (simp add: all_remaining_def evaluated_state_def)
  have k1: "possibleMatches ?st1 k = possibleMatches st k" by (simp add: evaluated_state_def)
  have wf_k: "remaining_presses (fst (kbs ! k)) (possibleMatches ?st1 k) \<noteq> []"
    using assms(1,2) k1 by (simp add: all_remaining_def)
  have comp: "completes event (fst (kbs ! k)) (possibleMatches st k)" "snd (kbs ! k) event = Throw"
    using assms(4) by (simp_all add: callback_throws_def)
  have step: "keyBinding_step event k (kbs ! k) ?st1 = (Throw, evaluated_state event kbs (Suc k) st)"
  proof -
    have "(\<lambda>j. if j < k then progress_after event (fst (kbs ! j)) (possibleMatches st j)
                else possibleMatches st j)(k := None)
        = (\<lambda>j. if j < Suc k then progress_after event (fst (kbs ! j)) (possibleMatches st j)
                else possibleMatches st j)"
      using completes_progress[OF comp(1)] by (auto simp: fun_eq_iff less_Suc_eq)
    then show ?thesis
      unfolding keyBinding_step_spec[OF wf_k] k1
      using comp completes_progress[OF comp(1)] by (simp add: evaluated_state_def)
  qed
  have "kbs = take k kbs @ kbs ! k # drop (Suc k) kbs"
    using assms(2) by (simp add: id_take_nth_drop[symmetric])
  then have "forEach_keyBinding event 0 kbs st
      = forEach_keyBinding event 0 (take k kbs @ kbs ! k # drop (Suc k) kbs) st" by simp
  also have "\<dots> = (Throw, evaluated_state event kbs (Suc k) st)"
    unfolding forEach_append using pre step assms(2) by simp
  finally show ?thesis .
qed

lemma first_throw_or_none:
  fixes n :: nat and P :: "nat \<Rightarrow> bool"
  obtains (none) "\<forall>j<n. \<not> P j" | (first) k where "k < n" "P k" "\<forall>j<k. \<not> P j"
proof (cases "\<exists>j<n. P j")
  case False
  then show ?thesis using none by blast
next
  case True
  then obtain j where j: "j < n" "P j" by blast
  define k where "k = (LEAST j. P j)"
  have 1: "P k" unfolding k_def using j(2) by (rule LeastI)
  have "k \<le> j" unfolding k_def using j(2) by (rule Least_le)
  then have 2: "k < n" using j(1) by simp
  have 3: "\<forall>i<k. \<not> P i" unfolding k_def using not_less_Least by blast
  from first[OF 2 1 3] show ?thesis .
qed

subsection \<open>The listener\<close>

lemma handle_cases:
  assumes "handle h ev st = (c, st')"
  obtains (discard) "c = Normal" "st' = st"
            "ev = Other \<or> (\<exists>e. ev = Keyboard e \<and> allowRepeat (options h) \<noteq> Some True \<and> repeat e)"
  | (throw) e where "ev = Keyboard e" "\<not> (allowRepeat (options h) \<noteq> Some True \<and> repeat e)"
            "c = Throw" "forEach_keyBinding e 0 (keyBindings h) st = (Throw, st')"
  | (normal) e st1 where "ev = Keyboard e" "\<not> (allowRepeat (options h) \<noteq> Some True \<and> repeat e)"
            "c = Normal" "forEach_keyBinding e 0 (keyBindings h) st = (Normal, st1)"
            "st' = st1\<lparr>pending_timers :=
                       (case timer st1 of None \<Rightarrow> pending_timers st1
                        | Some t \<Rightarrow> if t = 0 then pending_timers st1
                                    else filter (\<lambda>(i, due). i \<noteq> t) (pending_timers st1))
                       @ [(Suc (last_timer_id st1), clock st1 + timeout_ms h)],
                     last_timer_id := Suc (last_timer_id st1),
                     timer := Some (Suc (last_timer_id st1))\<rparr>"
proof (cases ev)
  case Other
  with assms have "c = Normal" "st' = st" by (auto simp: handle_def)
  then show ?thesis using Other discard by blast
next
  case (Keyboard e)
  show ?thesis
  proof (cases "allowRepeat (options h) \<noteq> Some True \<and> repeat e")
    case True
    with assms Keyboard have "c = Normal" "st' = st" by (auto simp: handle_def)
    then show ?thesis using Keyboard True discard by blast
  next
    case False
    obtain c1 st1 where f: "forEach_keyBinding e 0 (keyBindings h) st = (c1, st1)"
      by (cases "forEach_keyBinding e 0 (keyBindings h) st")
    show ?thesis
    proof (cases c1)
      case Throw
      with assms Keyboard False f have "c = Throw" "st' = st1"
        by (auto simp: handle_def)
      then show ?thesis using throw[OF Keyboard False] f Throw by blast
    next
      case Normal
      with assms Keyboard False f have "c = Normal"
        and "st' = st1\<lparr>pending_timers :=
                       (case timer st1 of None \<Rightarrow> pending_timers st1
                        | Some t \<Rightarrow> if t = 0 then pending_timers st1
                                    else filter (\<lambda>(i, due). i \<noteq> t) (pending_timers st1))
                       @ [(Suc (last_timer_id st1), clock st1 + timeout_ms h)],
                     last_timer_id := Suc (last_timer_id st1),
                     timer := Some (Suc (last_timer_id st1))\<rparr>"
        by (auto simp: handle_def setTimeout_def clearTimeout_def Let_def split: option.splits)
      then show ?thesis using normal[OF Keyboard False] f Normal by blast
    qed
  qed
qed

lemma handle_qualifying:
  assumes "allowRepeat (options h) = Some True \<or> \<not> repeat event"
  shows "handle h (Keyboard event) st =
     (case forEach_keyBinding event 0 (keyBindings h) st of
        (Throw, st') \<Rightarrow> (Throw, st')
      | (Normal, st') \<Rightarrow> (Normal, reschedule h st'))"
  using assms
  by (auto simp: handle_def reschedule_def setTimeout_def clearTimeout_def Let_def
      split: prod.splits completion.splits option.splits)

lemma handle_result:
  assumes "allowRepeat (options h) = Some True \<or> \<not> repeat event"
    and "all_remaining (keyBindings h) st"
  obtains (none) "\<forall>j<length (keyBindings h). \<not> callback_throws event (keyBindings h) st j"
      "handle h (Keyboard event) st
         = (Normal, reschedule h (evaluated_state event (keyBindings h) (length (keyBindings h)) st))"
  | (first) k where "k < length (keyBindings h)" "callback_throws event (keyBindings h) st k"
      "\<forall>j<k. \<not> callback_throws event (keyBindings h) st j"
      "handle h (Keyboard event) st = (Throw, evaluated_state event (keyBindings h) (Suc k) st)"
proof (cases "length (keyBindings h)" "callback_throws event (keyBindings h) st"
    rule: first_throw_or_none)
  case none
  from forEach_all_normal[OF assms(2) none] show ?thesis
    using that(1)[OF none] by (simp add: handle_qualifying[OF assms(1)])
next
  case (first k)
  from forEach_first_throw[OF assms(2) first(1) first(3) first(2)] show ?thesis
    using that(2)[OF first] by (simp add: handle_qualifying[OF assms(1)])
qed

lemma evaluated_state_simps [simp]:
  "possibleMatches (evaluated_state event kbs m st) j
     = (if j < m then progress_after event (fst (kbs ! j)) (possibleMatches st j)
        else possibleMatches st j)"
  "invoked (evaluated_state event kbs m st)
     = invoked st @ map (\<lambda>j. (j, event))
         (filter (\<lambda>j. completes event (fst (kbs ! j)) (possibleMatches st j)) [0..<m])"
  "timer (evaluated_state event kbs m st) = timer st"
  "pending_timers (evaluated_state event kbs m st) = pending_timers st"
  "last_timer_id (evaluated_state event kbs m st) = last_timer_id st"
  "clock (evaluated_state event kbs m st) = clock st"
  "listeners (evaluated_state event kbs m st) = listeners st"
  by (simp_all add: evaluated_state_def)

lemma reschedule_simps [simp]:
  "possibleMatches (reschedule h st) = possibleMatches st"
  "invoked (reschedule h st) = invoked st"
  "timer (reschedule h st) = Some (Suc (last_timer_id st))"
  "last_timer_id (reschedule h st) = Suc (last_timer_id st)"
  "clock (reschedule h st) = clock st"
  "listeners (reschedule h st) = listeners st"
  by (simp_all add: reschedule_def)

lemma reschedule_pending:
  "one_timer st \<Longrightarrow>
   pending_timers (reschedule h st) = [(Suc (last_timer_id st), clock st + timeout_ms h)]"
  unfolding one_timer_def reschedule_def
  by (cases "pending_timers st") (auto split: option.splits simp: filter_empty_conv)

lemma handle_tracks:
  assumes "allowRepeat (options h) = Some True \<or> \<not> repeat event"
    and "all_remaining (keyBindings h) st"
    and "handle h (Keyboard event) st = (c, st')"
    and "i < length (keyBindings h)"
    and "\<forall>j<i. \<not> callback_throws event (keyBindings h) st j"
  shows "possibleMatches st' i = progress_after event (fst (keyBindings h ! i)) (possibleMatches st i)"
    and "(i, event) \<in> set (drop (length (invoked st)) (invoked st'))
           \<longleftrightarrow> completes event (fst (keyBindings h ! i)) (possibleMatches st i)"
proof -
  from assms(1,2)
  have "possibleMatches st' i = progress_after event (fst (keyBindings h ! i)) (possibleMatches st i)
      \<and> ((i, event) \<in> set (drop (length (invoked st)) (invoked st'))
           \<longleftrightarrow> completes event (fst (keyBindings h ! i)) (possibleMatches st i))"
  proof (cases rule: handle_result)
    case none
    with assms(3) have "st' = reschedule h (evaluated_state event (keyBindings h) (length (keyBindings h)) st)"
      by simp
    then show ?thesis using assms(4) by auto
  next
    case (first k)
    have "i \<le> k" using first(2) assms(5) by (meson not_le)
    moreover from first(4) assms(3) have "st' = evaluated_state event (keyBindings h) (Suc k) st" by simp
    ultimately show ?thesis using first(2) by (auto simp: callback_throws_def less_Suc_eq_le)
  qed
  then show "possibleMatches st' i = progress_after event (fst (keyBindings h ! i)) (possibleMatches st i)"
    and "(i, event) \<in> set (drop (length (invoked st)) (invoked st'))
           \<longleftrightarrow> completes event (fst (keyBindings h ! i)) (possibleMatches st i)"
    by simp_all
qed

subsection \<open>Invariants of the reachable states\<close>

lemma elapse_frame:
  "timer (elapse d st) = timer st" "invoked (elapse d st) = invoked st"
  "listeners (elapse d st) = listeners st" "last_timer_id (elapse d st) = last_timer_id st"
  "clock (elapse d st) = clock st + d"
  "pending_timers (elapse d st) = filter (\<lambda>(i, t). \<not> t \<le> clock st + d) (pending_timers st)"
  "possibleMatches (elapse d st) = possibleMatches st \<or> possibleMatches (elapse d st) = Map.empty"
  by (simp_all add: elapse_def Let_def)

lemma entries_ok_cong:
  "possibleMatches st' = possibleMatches st \<Longrightarrow> entries_ok seqs st \<Longrightarrow> entries_ok seqs st'"
  by (simp add: entries_ok_def)

lemma entries_ok_empty: "possibleMatches st = Map.empty \<Longrightarrow> entries_ok seqs st"
  by (simp add: entries_ok_def)

lemma handle_entries_ok:
  assumes "handle h ev st = (c, st')" "entries_ok (map fst (keyBindings h)) st"
  shows "entries_ok (map fst (keyBindings h)) st'"
  using assms(1)
proof (cases rule: handle_cases)
  case discard
  then show ?thesis using assms(2) by simp
next
  case (throw e)
  from forEach_entries_ok[OF throw(4) assms(2)] show ?thesis by simp
next
  case (normal e st1)
  from forEach_entries_ok[OF normal(4) assms(2)] have "entries_ok (map fst (keyBindings h)) st1"
    by simp
  moreover have "possibleMatches st' = possibleMatches st1" using normal(5) by simp
  ultimately show ?thesis using entries_ok_cong by blast
qed

lemma handle_one_timer:
  assumes "handle h ev st = (c, st')" "one_timer st"
  shows "one_timer st'"
  using assms(1)
proof (cases rule: handle_cases)
  case discard
  then show ?thesis using assms(2) by simp
next
  case (throw e)
  from forEach_frame[OF throw(4)] show ?thesis using assms(2) by (simp add: one_timer_def)
next
  case (normal e st1)
  from forEach_frame[OF normal(4)] have t: "timer st1 = timer st" "pending_timers st1 = pending_timers st"
    by simp_all
  have "(case timer st1 of None \<Rightarrow> pending_timers st1
         | Some t \<Rightarrow> if t = 0 then pending_timers st1
                     else filter (\<lambda>(i, due). i \<noteq> t) (pending_timers st1)) = []"
    using assms(2) unfolding t one_timer_def
    by (cases "pending_timers st") (auto split: option.splits simp: filter_empty_conv)
  then show ?thesis using normal(5) by (simp add: one_timer_def)
qed

lemma reachable_invariant:
  assumes "reachable h st"
  shows "entries_ok (map fst (keyBindings h)) st \<and> one_timer st"
  using assms
proof (induction rule: reachable.induct)
  case start
  show ?case by (simp add: created_def entries_ok_def one_timer_def)
next
  case (event st h' ev c st')
  from event.hyps(2) have m: "map fst (keyBindings h') = map fst (keyBindings h)"
    by (simp add: same_bindings_def)
  from handle_entries_ok[OF event.hyps(3)] handle_one_timer[OF event.hyps(3)] event.IH m
  show ?case by simp
next
  case (time st d)
  have "entries_ok (map fst (keyBindings h)) (elapse d st)"
    using elapse_frame(7)[of d st] time.IH entries_ok_cong entries_ok_empty by blast
  moreover have "one_timer (elapse d st)"
    using time.IH by (auto simp: one_timer_def elapse_frame)
  ultimately show ?case by simp
next
  case (target st L)
  have "entries_ok (map fst (keyBindings h)) (st\<lparr>listeners := L\<rparr>)"
    using target.IH by (auto intro: entries_ok_cong)
  moreover have "one_timer (st\<lparr>listeners := L\<rparr>)"
    using target.IH by (simp add: one_timer_def)
  ultimately show ?case by simp
qed

lemma keyBindings_created:
  "map fst (keyBindings (createKeybindingsHandler navigator keyBindingMap opts))
     = map (\<lambda>entry. parseKeybinding navigator (fst entry)) keyBindingMap"
  by (simp add: createKeybindingsHandler_def Let_def split_def)

lemma parseKeybinding_not_Nil: "parseKeybinding navigator str \<noteq> []"
  by (simp add: parseKeybinding_def)

lemma created_sequences_not_Nil:
  "kb \<in> set (keyBindings (createKeybindingsHandler navigator keyBindingMap opts)) \<Longrightarrow> fst kb \<noteq> []"
  by (auto simp: createKeybindingsHandler_def Let_def parseKeybinding_not_Nil)

lemma reachable_all_remaining:
  assumes "reachable h st" "\<forall>kb\<in>set (keyBindings h). fst kb \<noteq> []"
  shows "all_remaining (keyBindings h) st"
proof -
  from reachable_invariant[OF assms(1)] have ok: "entries_ok (map fst (keyBindings h)) st" by simp
  show ?thesis
    unfolding all_remaining_def
  proof (intro allI impI)
    fix j assume j: "j < length (keyBindings h)"
    show "remaining_presses (fst (keyBindings h ! j)) (possibleMatches st j) \<noteq> []"
    proof (cases "possibleMatches st j")
      case None
      then show ?thesis using assms(2) j by (simp add: remaining_presses_def)
    next
      case (Some entry)
      then show ?thesis using ok by (auto simp: remaining_presses_def entries_ok_def)
    qed
  qed
qed

subsection \<open>Repeat events\<close>

lemma match_repeat [simp]: "match (event\<lparr>repeat := b\<rparr>) press = match event press"
  by (simp add: match_def getModifierState_def)

lemma getModifierState_repeat [simp]:
  "getModifierState (event\<lparr>repeat := b\<rparr>) m = getModifierState event m"
  by (simp add: getModifierState_def)

lemma keyBinding_step_repeat:
  assumes "same_up_to_events st1 st2"
    "snd kb (event\<lparr>repeat := True\<rparr>) = snd kb (event\<lparr>repeat := False\<rparr>)"
  shows "fst (keyBinding_step (event\<lparr>repeat := True\<rparr>) i kb st1)
           = fst (keyBinding_step (event\<lparr>repeat := False\<rparr>) i kb st2)
       \<and> same_up_to_events (snd (keyBinding_step (event\<lparr>repeat := True\<rparr>) i kb st1))
                            (snd (keyBinding_step (event\<lparr>repeat := False\<rparr>) i kb st2))"
  using assms
  by (auto simp: keyBinding_step_def Let_def same_up_to_events_def split: list.splits option.splits)

lemma forEach_repeat:
  assumes "same_up_to_events st1 st2"
    "\<forall>kb\<in>set kbs. snd kb (event\<lparr>repeat := True\<rparr>) = snd kb (event\<lparr>repeat := False\<rparr>)"
  shows "fst (forEach_keyBinding (event\<lparr>repeat := True\<rparr>) i kbs st1)
           = fst (forEach_keyBinding (event\<lparr>repeat := False\<rparr>) i kbs st2)
       \<and> same_up_to_events (snd (forEach_keyBinding (event\<lparr>repeat := True\<rparr>) i kbs st1))
                            (snd (forEach_keyBinding (event\<lparr>repeat := False\<rparr>) i kbs st2))"
  using assms
proof (induction kbs arbitrary: i st1 st2)
  case Nil
  then show ?case by simp
next
  case (Cons kb rest)
  obtain c1 s1 where a: "keyBinding_step (event\<lparr>repeat := True\<rparr>) i kb st1 = (c1, s1)"
    by (cases "keyBinding_step (event\<lparr>repeat := True\<rparr>) i kb st1")
  obtain c2 s2 where b: "keyBinding_step (event\<lparr>repeat := False\<rparr>) i kb st2 = (c2, s2)"
    by (cases "keyBinding_step (event\<lparr>repeat := False\<rparr>) i kb st2")
  from keyBinding_step_repeat[OF Cons.prems(1), of kb event i] Cons.prems(2) a b
  have c: "c1 = c2" and s: "same_up_to_events s1 s2" by auto
  show ?case
  proof (cases c1)
    case Throw
    then show ?thesis using a b c s by simp
  next
    case Normal
    from Cons.IH[OF s, of "Suc i"] Cons.prems(2) show ?thesis using a b c Normal by simp
  qed
qed

lemma handle_repeat:
  assumes "allowRepeat (options h) = Some True"
    "\<forall>kb\<in>set (keyBindings h). snd kb (event\<lparr>repeat := True\<rparr>) = snd kb (event\<lparr>repeat := False\<rparr>)"
  shows "fst (handle h (Keyboard (event\<lparr>repeat := True\<rparr>)) st)
           = fst (handle h (Keyboard (event\<lparr>repeat := False\<rparr>)) st)
       \<and> same_up_to_events (snd (handle h (Keyboard (event\<lparr>repeat := True\<rparr>)) st))
                            (snd (handle h (Keyboard (event\<lparr>repeat := False\<rparr>)) st))"
proof -
  have r: "same_up_to_events st st" by (simp add: same_up_to_events_def)
  obtain c1 s1 where a: "forEach_keyBinding (event\<lparr>repeat := True\<rparr>) 0 (keyBindings h) st = (c1, s1)"
    by (cases "forEach_keyBinding (event\<lparr>repeat := True\<rparr>) 0 (keyBindings h) st")
  obtain c2 s2 where b: "forEach_keyBinding (event\<lparr>repeat := False\<rparr>) 0 (keyBindings h) st = (c2, s2)"
    by (cases "forEach_keyBinding (event\<lparr>repeat := False\<rparr>) 0 (keyBindings h) st")
  from forEach_repeat[OF r assms(2), of 0] a b
  have c: "c1 = c2" and s: "same_up_to_events s1 s2" by auto
  show ?thesis
  proof (cases c1)
    case Throw
    then show ?thesis using a b c s assms(1) by (simp add: handle_def)
  next
    case Normal
    then show ?thesis using a b c s assms(1)
      by (auto simp: handle_def same_up_to_events_def setTimeout_def clearTimeout_def Let_def
          split: option.splits)
  qed
qed

subsection \<open>After unsubscribing\<close>

lemma happen_after_unsubscribe:
  assumes "snd sub \<notin> listeners st"
  shows "snd sub \<notin> listeners (happen sub x st) \<and> invoked (happen sub x st) = invoked st
       \<and> timer (happen sub x st) = timer st
       \<and> (possibleMatches (happen sub x st) = possibleMatches st
            \<or> possibleMatches (happen sub x st) = Map.empty)"
proof (cases x)
  case (Dispatch type ev)
  then show ?thesis using assms by (auto simp: dispatchEvent_def)
next
  case (Elapse d)
  then show ?thesis using assms elapse_frame(7)[of d st] by (simp add: elapse_frame)
next
  case Unsubscribe
  then show ?thesis using assms by (simp add: unsubscribe_def)
qed

lemma fold_happen_after_unsubscribe:
  assumes "snd sub \<notin> listeners st"
  shows "snd sub \<notin> listeners (fold (happen sub) xs st) \<and> invoked (fold (happen sub) xs st) = invoked st
       \<and> timer (fold (happen sub) xs st) = timer st
       \<and> (possibleMatches (fold (happen sub) xs st) = possibleMatches st
            \<or> possibleMatches (fold (happen sub) xs st) = Map.empty)"
  using assms
proof (induction xs arbitrary: st)
  case Nil
  then show ?case by simp
next
  case (Cons x xs)
  from happen_after_unsubscribe[OF Cons.prems, of x]
  have 1: "snd sub \<notin> listeners (happen sub x st)" "invoked (happen sub x st) = invoked st"
    "timer (happen sub x st) = timer st"
    "possibleMatches (happen sub x st) = possibleMatches st
       \<or> possibleMatches (happen sub x st) = Map.empty"
    by simp_all
  from Cons.IH[OF 1(1)] 1 show ?case by auto
qed

subsection \<open>The scenarios, evaluated\<close>

lemma parse_yeet:
  "parseKeybinding None ''y e e t'' = [([], ''y''), ([], ''e''), ([], ''e''), ([], ''t'')]"
  by (simp add: parseKeybinding_def parsePress_def trim_def isWhiteSpace_def isWordChar_def)

lemma parse_a: "parseKeybinding None ''a'' = [([], ''a'')]"
  by (simp add: parseKeybinding_def parsePress_def trim_def isWhiteSpace_def isWordChar_def)

lemma parse_a_b: "parseKeybinding None ''a b'' = [([], ''a''), ([], ''b'')]"
  by (simp add: parseKeybinding_def parsePress_def trim_def isWhiteSpace_def isWordChar_def)

lemma parse_a_c: "parseKeybinding None ''a c'' = [([], ''a''), ([], ''c'')]"
  by (simp add: parseKeybinding_def parsePress_def trim_def isWhiteSpace_def isWordChar_def)

lemma match_plain_key:
  "match (key_event k c []) ([], k') = (toUpperCase k' = toUpperCase k \<or> k' = c)"
  by (auto simp: match_def truthy_def KEYBINDING_MODIFIER_KEYS_def getModifierState_def key_event_def)

lemma yeet_eq:
  "yeet = \<lparr>options = \<lparr>timeout = None, allowRepeat = Some False\<rparr>, timeout_ms = 1000,
      keyBindings = [([([], ''y''), ([], ''e''), ([], ''e''), ([], ''t'')], \<lambda>_. Normal)]\<rparr>"
  by (simp add: yeet_def createKeybindingsHandler_def parse_yeet DEFAULT_TIMEOUT_def)

lemma yeet_started_eq:
  "yeet_started = created\<lparr>possibleMatches := [0 \<mapsto> [([], ''e''), ([], ''e''), ([], ''t'')]],
      timer := Some 1, pending_timers := [(1, 1000)], last_timer_id := 1\<rparr>"
  by (simp add: yeet_started_def yeet_def createKeybindingsHandler_def parse_yeet handle_def
      keyBinding_step_def match_plain_key toUpperCase_def setTimeout_def created_def
      DEFAULT_TIMEOUT_def)

lemma handle_yeet_y:
  "handle yeet (Keyboard (key_event ''y'' ''KeyY'' [])) created = (Normal, yeet_started)"
  unfolding yeet_started_eq
  by (simp add: yeet_eq handle_def keyBinding_step_def match_plain_key toUpperCase_def
      setTimeout_def created_def)

lemma throwing_eq:
  "throwing = \<lparr>options = \<lparr>timeout = None, allowRepeat = Some False\<rparr>, timeout_ms = 1000,
      keyBindings = [([([], ''a''), ([], ''b'')], \<lambda>_. Normal), ([([], ''a'')], \<lambda>_. Throw),
                     ([([], ''a''), ([], ''c'')], \<lambda>_. Normal)]\<rparr>"
  by (simp add: throwing_def createKeybindingsHandler_def parse_a parse_a_b parse_a_c
      DEFAULT_TIMEOUT_def)

lemma handle_throwing_a:
  "handle throwing (Keyboard (key_event ''a'' ''KeyA'' [])) created
     = (Throw, created\<lparr>possibleMatches := [0 \<mapsto> [([], ''b'')]],
                       invoked := [(1, key_event ''a'' ''KeyA'' [])]\<rparr>)"
  by (simp add: throwing_eq handle_def keyBinding_step_def match_plain_key toUpperCase_def
      created_def)

lemma a_thrown_eq:
  "a_thrown = created\<lparr>possibleMatches := [0 \<mapsto> [([], ''b'')]],
                      invoked := [(1, key_event ''a'' ''KeyA'' [])]\<rparr>"
  by (simp add: a_thrown_def handle_throwing_a)

lemma not_throws_0:
  "\<not> callback_throws (key_event ''a'' ''KeyA'' []) (keyBindings throwing) created 0"
  by (simp add: callback_throws_def throwing_eq)

lemma throws_1:
  "callback_throws (key_event ''a'' ''KeyA'' []) (keyBindings throwing) created 1"
  by (simp add: callback_throws_def throwing_eq completes_def remaining_presses_def created_def
      match_plain_key)

lemma parse_KeyA: "parseKeybinding None ''KeyA'' = [([], ''KeyA'')]"
  by (simp add: parseKeybinding_def parsePress_def trim_def isWhiteSpace_def isWordChar_def)

lemma twins_eq:
  "twins = \<lparr>options = \<lparr>timeout = None, allowRepeat = Some False\<rparr>, timeout_ms = 1000,
      keyBindings = [([([], ''a'')], \<lambda>_. Normal), ([([], ''KeyA'')], \<lambda>_. Normal)]\<rparr>"
  by (simp add: twins_def createKeybindingsHandler_def parse_a parse_KeyA DEFAULT_TIMEOUT_def)

lemma a_then_b_eq:
  "a_then_b = ((\<lparr>options = \<lparr>timeout = None, allowRepeat = None\<rparr>, timeout_ms = 1000,
                  keyBindings = [([([], ''a''), ([], ''b'')], \<lambda>_. Normal)]\<rparr>, ''keydown''),
               created\<lparr>listeners := {''keydown''}\<rparr>)"
  by (simp add: a_then_b_def tinykeys_def createKeybindingsHandler_def parse_a_b DEFAULT_EVENT_def
      DEFAULT_TIMEOUT_def KeyBindingHandlerOptions.truncate_def created_def Let_def)

lemma a_pressed_eq:
  "a_pressed = created\<lparr>possibleMatches := [0 \<mapsto> [([], ''b'')]],
      timer := Some 1, pending_timers := [(1, 1000)], last_timer_id := 1,
      listeners := {''keydown''}\<rparr>"
  by (simp add: a_pressed_def a_then_b_eq dispatchEvent_def handle_def
      keyBinding_step_def match_plain_key toUpperCase_def setTimeout_def created_def)

section \<open>The claims about the handler\<close>

text \<open>
  Claim C2 says that every binding is updated on every qualifying event and that no binding's
  evaluation short-circuits the others. Of the three bindings \<^verbatim>\<open>a b\<close>, \<^verbatim>\<open>a\<close> and \<^verbatim>\<open>a c\<close>,
  the second has a callback that throws. The key a matches the first press of the third
  binding, of which two presses remain, so its entry should become the press c; but the
  callback of the second binding has thrown before, and the third binding has no entry.
\<close>

theorem later_binding_skipped_counterexample:
  "fst (keyBindings throwing ! 2) = [([], ''a''), ([], ''c'')]
   \<and> match (key_event ''a'' ''KeyA'' []) ([], ''a'')
   \<and> possibleMatches created 2 = None
   \<and> progress_after (key_event ''a'' ''KeyA'' []) (fst (keyBindings throwing ! 2))
         (possibleMatches created 2) = Some [([], ''c'')]
   \<and> handle throwing (Keyboard (key_event ''a'' ''KeyA'' [])) created = (Throw, a_thrown)
   \<and> possibleMatches a_thrown 2 = None"
  by (simp add: a_thrown_eq handle_throwing_a)
     (simp add: throwing_eq match_plain_key created_def progress_after_def remaining_presses_def)

text \<open>
  Claim C2, amended. In every reachable state and for every qualifying event, every binding
  before which no callback has thrown on this event is evaluated, in the order of
  registration: with the remaining presses being its entry or, if it has none, its whole
  sequence, the entry is deleted if the event does not match the first remaining press (and
  left as it is if the key of the event is an active modifier), it becomes the remaining
  presses without the first if the event matches and more than one press remains, and it is
  deleted and the callback called with the event if the event matches the last remaining
  press. If no callback throws, every binding is evaluated, the handling returns, and the
  callbacks called are those of all the bindings the event completes, in the order of
  registration.
\<close>

theorem sequence_tracker_step:
  assumes "h = createKeybindingsHandler navigator keyBindingMap opts"
    and "reachable h st"
    and "allowRepeat (options h) = Some True \<or> \<not> repeat event"
    and "handle h (Keyboard event) st = (c, st')"
    and "i < length (keyBindings h)"
    and "\<forall>j<i. \<not> callback_throws event (keyBindings h) st j"
  shows "fst (keyBindings h ! i) = parseKeybinding navigator (fst (keyBindingMap ! i))
       \<and> possibleMatches st' i
           = progress_after event (fst (keyBindings h ! i)) (possibleMatches st i)
       \<and> ((i, event) \<in> set (drop (length (invoked st)) (invoked st'))
            \<longleftrightarrow> completes event (fst (keyBindings h ! i)) (possibleMatches st i))
       \<and> ((\<forall>j<length (keyBindings h). \<not> callback_throws event (keyBindings h) st j) \<longrightarrow>
            c = Normal
          \<and> invoked st' = invoked st @ map (\<lambda>j. (j, event))
               (filter (\<lambda>j. completes event (fst (keyBindings h ! j)) (possibleMatches st j))
                  [0..<length (keyBindings h)]))"
proof -
  have ne: "\<forall>kb\<in>set (keyBindings h). fst kb \<noteq> []"
    using created_sequences_not_Nil assms(1) by blast
  note wf = reachable_all_remaining[OF assms(2) ne]
  have "map fst (keyBindings h) ! i = map (\<lambda>entry. parseKeybinding navigator (fst entry)) keyBindingMap ! i"
    using assms(1) by (simp add: keyBindings_created)
  moreover have "i < length keyBindingMap"
    using assms(1,5) by (simp add: createKeybindingsHandler_def Let_def)
  ultimately have 1: "fst (keyBindings h ! i) = parseKeybinding navigator (fst (keyBindingMap ! i))"
    using assms(5) by simp
  note 2 = handle_tracks[OF assms(3) wf assms(4,5,6)]
  have 3: "c = Normal
          \<and> invoked st' = invoked st @ map (\<lambda>j. (j, event))
               (filter (\<lambda>j. completes event (fst (keyBindings h ! j)) (possibleMatches st j))
                  [0..<length (keyBindings h)])"
    if all: "\<forall>j<length (keyBindings h). \<not> callback_throws event (keyBindings h) st j"
    using assms(3) wf
  proof (cases rule: handle_result)
    case none
    then show ?thesis using assms(4) by auto
  next
    case (first k)
    then show ?thesis using all by blast
  qed
  from 1 2 3 show ?thesis by blast
qed

text \<open>
  The three bindings at the key a, up to the binding that throws; and two bindings that the
  key a completes both, whose callbacks are called in the order of registration.
\<close>

theorem sequence_tracker_step_witness:
  "reachable throwing created
   \<and> handle throwing (Keyboard (key_event ''a'' ''KeyA'' [])) created = (Throw, a_thrown)
   \<and> \<not> callback_throws (key_event ''a'' ''KeyA'' []) (keyBindings throwing) created 0
   \<and> possibleMatches a_thrown 0 = Some [([], ''b'')]
   \<and> possibleMatches a_thrown 1 = None
   \<and> (1, key_event ''a'' ''KeyA'' []) \<in> set (invoked a_thrown)
   \<and> reachable twins created
   \<and> \<not> callback_throws (key_event ''a'' ''KeyA'' []) (keyBindings twins) created 0
   \<and> \<not> callback_throws (key_event ''a'' ''KeyA'' []) (keyBindings twins) created 1
   \<and> fst (handle twins (Keyboard (key_event ''a'' ''KeyA'' [])) created) = Normal
   \<and> invoked (snd (handle twins (Keyboard (key_event ''a'' ''KeyA'' [])) created))
        = [(0, key_event ''a'' ''KeyA'' []), (1, key_event ''a'' ''KeyA'' [])]"
proof -
  let ?e = "key_event ''a'' ''KeyA'' []"
  have q: "allowRepeat (options throwing) = Some True \<or> \<not> repeat ?e" by simp
  have h: "handle throwing (Keyboard ?e) created = (Throw, a_thrown)"
    by (simp add: handle_throwing_a a_thrown_eq)
  have l0: "0 < length (keyBindings throwing)" and l1: "1 < length (keyBindings throwing)"
    by (simp_all add: throwing_eq)
  have n0: "\<forall>j<0. \<not> callback_throws ?e (keyBindings throwing) created j" by simp
  have n1: "\<forall>j<1. \<not> callback_throws ?e (keyBindings throwing) created j"
    using not_throws_0 by simp
  from sequence_tracker_step[OF throwing_def reachable.start q h l0 n0]
  have 1: "possibleMatches a_thrown 0 = Some [([], ''b'')]"
    by (simp add: throwing_eq progress_after_def remaining_presses_def created_def match_plain_key)
  from sequence_tracker_step[OF throwing_def reachable.start q h l1 n1]
  have 2: "possibleMatches a_thrown 1 = None \<and> (1, ?e) \<in> set (invoked a_thrown)"
    by (simp add: throwing_eq progress_after_def completes_def remaining_presses_def created_def
        match_plain_key)
  have qt: "allowRepeat (options twins) = Some True \<or> \<not> repeat ?e" by simp
  have ht: "handle twins (Keyboard ?e) created
      = (fst (handle twins (Keyboard ?e) created), snd (handle twins (Keyboard ?e) created))"
    by simp
  have lt: "0 < length (keyBindings twins)" by (simp add: twins_eq)
  have t0: "\<not> callback_throws ?e (keyBindings twins) created 0"
    and t1: "\<not> callback_throws ?e (keyBindings twins) created 1"
    by (simp_all add: callback_throws_def twins_eq)
  have "j < length (keyBindings twins) \<Longrightarrow> j = 0 \<or> j = 1" for j
    by (auto simp: twins_eq)
  then have at: "\<forall>j<length (keyBindings twins). \<not> callback_throws ?e (keyBindings twins) created j"
    using t0 t1 by blast
  have nt: "\<forall>j<0. \<not> callback_throws ?e (keyBindings twins) created j" by simp
  from sequence_tracker_step[OF twins_def reachable.start qt ht lt nt] at
  have "fst (handle twins (Keyboard ?e) created) = Normal
      \<and> invoked (snd (handle twins (Keyboard ?e) created)) = invoked created @ map (\<lambda>j. (j, ?e))
               (filter (\<lambda>j. completes ?e (fst (keyBindings twins ! j)) (possibleMatches created j))
                  [0..<length (keyBindings twins)])"
    by blast
  moreover have "[0..<length (keyBindings twins)] = [0, 1]"
    by (simp add: twins_eq upt_rec)
  ultimately have 3: "fst (handle twins (Keyboard ?e) created) = Normal
      \<and> invoked (snd (handle twins (Keyboard ?e) created)) = [(0, ?e), (1, ?e)]"
    by (simp add: twins_eq completes_def remaining_presses_def created_def match_plain_key
        toUpperCase_def)
  from 1 2 3 h not_throws_0 t0 t1 reachable.start[of throwing] reachable.start[of twins]
  show ?thesis by blast
qed

text \<open>
  Claim C4 says that every qualifying event reschedules the timer and that progress is
  abandoned after the timeout. The key a advances the binding \<^verbatim>\<open>a b\<close> and completes the
  binding \<^verbatim>\<open>a\<close>, whose callback throws: no timer is set, the entry of the first binding is
  still there after five seconds, and the key b then completes that binding from where it
  was left.
\<close>

theorem no_timer_after_throw_counterexample:
  "handle throwing (Keyboard (key_event ''a'' ''KeyA'' [])) created = (Throw, a_thrown)
   \<and> timer a_thrown = None \<and> pending_timers a_thrown = []
   \<and> possibleMatches a_thrown 0 = Some [([], ''b'')]
   \<and> possibleMatches (elapse 5000 a_thrown) 0 = Some [([], ''b'')]
   \<and> invoked (snd (handle throwing (Keyboard (key_event ''b'' ''KeyB'' [])) (elapse 5000 a_thrown)))
       = [(1, key_event ''a'' ''KeyA'' []), (0, key_event ''b'' ''KeyB'' [])]"
  by (simp add: a_thrown_eq handle_throwing_a)
     (simp add: throwing_eq created_def elapse_def handle_def keyBinding_step_def match_plain_key
        toUpperCase_def setTimeout_def)

text \<open>
  Claim C4, amended. When the handling of a qualifying event returns (no callback throws),
  the timer that was pending is cleared and one timer is pending, due after the timeout,
  which is 1000 milliseconds unless the options give another. Before it is due nothing
  changes; when the timeout has passed with no other event, it has fired and the table is
  empty, so that for the next event every binding that is evaluated starts from the first
  press of its sequence.
\<close>

theorem abandonment_timer:
  assumes "h = createKeybindingsHandler navigator keyBindingMap opts"
    and "reachable h st"
    and "allowRepeat (options h) = Some True \<or> \<not> repeat event"
    and "handle h (Keyboard event) st = (Normal, st')"
  shows "timeout_ms h = (case opts of None \<Rightarrow> 1000
                         | Some given \<Rightarrow> (case timeout given of None \<Rightarrow> 1000 | Some t \<Rightarrow> t))
       \<and> timer st' = Some (Suc (last_timer_id st))
       \<and> pending_timers st' = [(Suc (last_timer_id st), clock st + timeout_ms h)]
       \<and> (\<forall>d<timeout_ms h. possibleMatches (elapse d st') = possibleMatches st'
                            \<and> pending_timers (elapse d st') = pending_timers st')
       \<and> (\<forall>d\<ge>timeout_ms h.
            possibleMatches (elapse d st') = Map.empty \<and> pending_timers (elapse d st') = []
          \<and> (\<forall>event2 c2 st2 i.
                (allowRepeat (options h) = Some True \<or> \<not> repeat event2)
              \<and> handle h (Keyboard event2) (elapse d st') = (c2, st2)
              \<and> i < length (keyBindings h)
              \<and> (\<forall>j<i. \<not> callback_throws event2 (keyBindings h) (elapse d st') j)
              \<longrightarrow> possibleMatches st2 i
                    = progress_after event2 (fst (keyBindings h ! i)) None))"
proof -
  have ne: "\<forall>kb\<in>set (keyBindings h). fst kb \<noteq> []"
    using created_sequences_not_Nil assms(1) by blast
  note wf = reachable_all_remaining[OF assms(2) ne]
  have one: "one_timer st" using reachable_invariant[OF assms(2)] by simp
  have 0: "timeout_ms h = (case opts of None \<Rightarrow> 1000
                         | Some given \<Rightarrow> (case timeout given of None \<Rightarrow> 1000 | Some t \<Rightarrow> t))"
    using assms(1)
    by (simp add: createKeybindingsHandler_def DEFAULT_TIMEOUT_def Let_def split: option.splits)
  from assms(3) wf
  have st': "st' = reschedule h (evaluated_state event (keyBindings h) (length (keyBindings h)) st)"
  proof (cases rule: handle_result)
    case none
    then show ?thesis using assms(4) by simp
  next
    case (first k)
    then show ?thesis using assms(4) by simp
  qed
  have "one_timer (evaluated_state event (keyBindings h) (length (keyBindings h)) st)"
    using one by (simp add: one_timer_def)
  from reschedule_pending[OF this, of h]
  have 2: "pending_timers st' = [(Suc (last_timer_id st), clock st + timeout_ms h)]"
    unfolding st' by simp
  have 1: "timer st' = Some (Suc (last_timer_id st))" unfolding st' by simp
  have clk: "clock st' = clock st" unfolding st' by simp
  have 3: "possibleMatches (elapse d st') = possibleMatches st'
         \<and> pending_timers (elapse d st') = pending_timers st'" if "d < timeout_ms h" for d
    using that by (simp add: elapse_def 2 clk Let_def)
  have 4: "possibleMatches (elapse d st') = Map.empty \<and> pending_timers (elapse d st') = []"
    if "timeout_ms h \<le> d" for d
    using that by (simp add: elapse_def 2 clk Let_def)
  have same: "same_bindings h h" by (simp add: same_bindings_def)
  have r': "reachable h st'" using reachable.event[OF assms(2) same assms(4)] .
  have 5: "possibleMatches st2 i = progress_after event2 (fst (keyBindings h ! i)) None"
    if "timeout_ms h \<le> d" "allowRepeat (options h) = Some True \<or> \<not> repeat event2"
      "handle h (Keyboard event2) (elapse d st') = (c2, st2)" "i < length (keyBindings h)"
      "\<forall>j<i. \<not> callback_throws event2 (keyBindings h) (elapse d st') j"
    for d event2 c2 st2 i
  proof -
    have "reachable h (elapse d st')" using r' by (rule reachable.time)
    from reachable_all_remaining[OF this ne]
    have "possibleMatches st2 i
        = progress_after event2 (fst (keyBindings h ! i)) (possibleMatches (elapse d st') i)"
      using handle_tracks(1) that by blast
    then show ?thesis using 4[OF that(1)] by simp
  qed
  from 0 1 2 3 4 5 show ?thesis by blast
qed

text \<open>
  The binding \<^verbatim>\<open>y e e t\<close> after the key y: the entry is there after 999 milliseconds and
  gone after 1000, and a key y after that starts the sequence again.
\<close>

theorem abandonment_timer_witness:
  "reachable yeet created
   \<and> handle yeet (Keyboard (key_event ''y'' ''KeyY'' [])) created = (Normal, yeet_started)
   \<and> timeout_ms yeet = 1000
   \<and> pending_timers yeet_started = [(1, 1000)]
   \<and> possibleMatches (elapse 999 yeet_started) 0 = Some [([], ''e''), ([], ''e''), ([], ''t'')]
   \<and> possibleMatches (elapse 1000 yeet_started) 0 = None
   \<and> possibleMatches
        (snd (handle yeet (Keyboard (key_event ''y'' ''KeyY'' [])) (elapse 1000 yeet_started))) 0
        = Some [([], ''e''), ([], ''e''), ([], ''t'')]"
proof -
  let ?e = "key_event ''y'' ''KeyY'' []"
  have q: "allowRepeat (options yeet) = Some True \<or> \<not> repeat ?e" by simp
  note t = abandonment_timer[OF yeet_def reachable.start q handle_yeet_y]
  have 0: "timeout_ms yeet = 1000" using t by simp
  have 1: "pending_timers yeet_started = [(1, 1000)]"
    using t by (simp add: created_def)
  have "(999::nat) < timeout_ms yeet" using 0 by simp
  with t have "possibleMatches (elapse 999 yeet_started) = possibleMatches yeet_started" by blast
  then have 2: "possibleMatches (elapse 999 yeet_started) 0 = Some [([], ''e''), ([], ''e''), ([], ''t'')]"
    by (simp add: yeet_started_eq)
  have le: "timeout_ms yeet \<le> (1000::nat)" using 0 by simp
  with t have "possibleMatches (elapse 1000 yeet_started) = Map.empty" by blast
  then have 3: "possibleMatches (elapse 1000 yeet_started) 0 = None" by simp
  have "handle yeet (Keyboard ?e) (elapse 1000 yeet_started)
     = (fst (handle yeet (Keyboard ?e) (elapse 1000 yeet_started)),
        snd (handle yeet (Keyboard ?e) (elapse 1000 yeet_started)))" by simp
  moreover have "0 < length (keyBindings yeet)" by (simp add: yeet_eq)
  moreover have "\<forall>j<0. \<not> callback_throws ?e (keyBindings yeet) (elapse 1000 yeet_started) j"
    by simp
  ultimately have "possibleMatches (snd (handle yeet (Keyboard ?e) (elapse 1000 yeet_started))) 0
      = progress_after ?e (fst (keyBindings yeet ! 0)) None"
    using t le q by blast
  then have 4: "possibleMatches (snd (handle yeet (Keyboard ?e) (elapse 1000 yeet_started))) 0
        = Some [([], ''e''), ([], ''e''), ([], ''t'')]"
    by (simp add: yeet_eq progress_after_def remaining_presses_def match_plain_key)
  from 0 1 2 3 4 handle_yeet_y reachable.start show ?thesis by blast
qed

text \<open>
  Claim C5 says that unsubscribing cancels the pending timer and that the table does not
  change afterwards. After the key a of the binding \<^verbatim>\<open>a b\<close> the subscription is ended: the
  timer is still pending, and when it fires a second later it deletes the entry.
\<close>

theorem unsubscribe_keeps_timer_counterexample:
  "pending_timers (unsubscribe (fst a_then_b) a_pressed) = [(1, 1000)]
   \<and> possibleMatches (unsubscribe (fst a_then_b) a_pressed) 0 = Some [([], ''b'')]
   \<and> possibleMatches (elapse 1000 (unsubscribe (fst a_then_b) a_pressed)) 0 = None"
  by (simp add: a_pressed_eq unsubscribe_def elapse_def created_def)

text \<open>
  Claim C5, amended. The function returned by \<open>tinykeys\<close> removes the listener that \<open>tinykeys\<close>
  registered, and calling it again changes nothing. After it, an event that the target
  receives does not reach the handler and changes nothing; whatever happens later, no
  callback is called, and the table is as it was or has been emptied by the timer.
  Unsubscribing leaves the timer as it is: a timer that is pending stays pending.
\<close>

theorem unsubscribe_removes_listener:
  "snd sub \<notin> listeners (unsubscribe sub st)
   \<and> unsubscribe sub (unsubscribe sub st) = unsubscribe sub st
   \<and> dispatchEvent sub type ev (unsubscribe sub st) = (Normal, unsubscribe sub st)
   \<and> invoked (fold (happen sub) later (unsubscribe sub st)) = invoked st
   \<and> (possibleMatches (fold (happen sub) later (unsubscribe sub st)) = possibleMatches st
        \<or> possibleMatches (fold (happen sub) later (unsubscribe sub st)) = Map.empty)
   \<and> pending_timers (unsubscribe sub st) = pending_timers st
   \<and> timer (unsubscribe sub st) = timer st
   \<and> snd (fst (tinykeys navigator keyBindingMap opts st))
        \<in> listeners (snd (tinykeys navigator keyBindingMap opts st))"
proof -
  have u: "snd sub \<notin> listeners (unsubscribe sub st)" by (simp add: unsubscribe_def)
  have "unsubscribe sub (unsubscribe sub st) = unsubscribe sub st" by (simp add: unsubscribe_def)
  moreover have "dispatchEvent sub type ev (unsubscribe sub st) = (Normal, unsubscribe sub st)"
    using u by (auto simp: dispatchEvent_def)
  moreover have "invoked (unsubscribe sub st) = invoked st"
    "possibleMatches (unsubscribe sub st) = possibleMatches st"
    "pending_timers (unsubscribe sub st) = pending_timers st"
    "timer (unsubscribe sub st) = timer st"
    by (simp_all add: unsubscribe_def)
  moreover have "snd (fst (tinykeys navigator keyBindingMap opts st))
        \<in> listeners (snd (tinykeys navigator keyBindingMap opts st))"
    by (simp add: tinykeys_def Let_def)
  ultimately show ?thesis using u fold_happen_after_unsubscribe[OF u, of later] by auto
qed

text \<open>
  Claim C6. In every reachable state every entry of the table belongs to a binding, is not
  empty and is a proper suffix of the parsed sequence of that binding. The handling of an
  event leaves no entry for a binding whose callback it has called, whether the handling
  returns or throws.
\<close>

theorem progress_entries_proper_suffixes:
  assumes "reachable (createKeybindingsHandler navigator keyBindingMap opts) st"
  shows "(\<forall>i entry. possibleMatches st i = Some entry \<longrightarrow>
            i < length keyBindingMap \<and> entry \<noteq> []
          \<and> (\<exists>done. done \<noteq> [] \<and> parseKeybinding navigator (fst (keyBindingMap ! i)) = done @ entry))
       \<and> (\<forall>ev c st'.
            handle (createKeybindingsHandler navigator keyBindingMap opts) ev st = (c, st') \<longrightarrow>
            (\<exists>new. invoked st' = invoked st @ new
                 \<and> (\<forall>(i, e) \<in> set new. possibleMatches st' i = None)))"
proof -
  let ?h = "createKeybindingsHandler navigator keyBindingMap opts"
  from reachable_invariant[OF assms]
  have "entries_ok (map (\<lambda>entry. parseKeybinding navigator (fst entry)) keyBindingMap) st"
    by (simp add: keyBindings_created)
  then have a: "\<forall>i entry. possibleMatches st i = Some entry \<longrightarrow>
            i < length keyBindingMap \<and> entry \<noteq> []
          \<and> (\<exists>done. done \<noteq> [] \<and> parseKeybinding navigator (fst (keyBindingMap ! i)) = done @ entry)"
    unfolding entries_ok_def by (metis length_map nth_map)
  have b: "\<exists>new. invoked st' = invoked st @ new \<and> (\<forall>(i, e) \<in> set new. possibleMatches st' i = None)"
    if "handle ?h ev st = (c, st')" for ev c st'
    using that
  proof (cases rule: handle_cases)
    case discard
    then show ?thesis by simp
  next
    case (throw e)
    from forEach_frame[OF throw(4)] show ?thesis by fastforce
  next
    case (normal e st1)
    from forEach_frame[OF normal(4)] obtain new where
      "invoked st1 = invoked st @ new" "\<forall>(i, e) \<in> set new. possibleMatches st1 i = None"
      by fastforce
    then show ?thesis using normal(5) by auto
  qed
  from a b show ?thesis by blast
qed

text \<open>
  The entry of \<^verbatim>\<open>y e e t\<close> after the key y, and the binding \<^verbatim>\<open>a\<close> after its callback has
  been called.
\<close>

theorem progress_entries_proper_suffixes_witness:
  "reachable yeet yeet_started
   \<and> possibleMatches yeet_started 0 = Some [([], ''e''), ([], ''e''), ([], ''t'')]
   \<and> (\<exists>done. done \<noteq> [] \<and> parseKeybinding None ''y e e t'' = done @ [([], ''e''), ([], ''e''), ([], ''t'')])
   \<and> reachable throwing created
   \<and> handle throwing (Keyboard (key_event ''a'' ''KeyA'' [])) created = (Throw, a_thrown)
   \<and> invoked a_thrown = invoked created @ [(1, key_event ''a'' ''KeyA'' [])]
   \<and> possibleMatches a_thrown 1 = None"
proof -
  have "same_bindings yeet yeet" by (simp add: same_bindings_def)
  then have r: "reachable yeet yeet_started"
    using reachable.event[OF reachable.start _ handle_yeet_y] by blast
  have e: "possibleMatches yeet_started 0 = Some [([], ''e''), ([], ''e''), ([], ''t'')]"
    by (simp add: yeet_started_eq)
  have h: "handle throwing (Keyboard (key_event ''a'' ''KeyA'' [])) created = (Throw, a_thrown)"
    by (simp add: handle_throwing_a a_thrown_eq)
  have i: "invoked a_thrown = invoked created @ [(1, key_event ''a'' ''KeyA'' [])]"
    by (simp add: a_thrown_eq created_def)
  from progress_entries_proper_suffixes[OF reachable.start[of throwing, unfolded throwing_def],
      THEN conjunct2, rule_format, OF h[unfolded throwing_def]] i
  have "possibleMatches a_thrown 1 = None" by auto
  with progress_entries_proper_suffixes[OF r[unfolded yeet_def], THEN conjunct1, rule_format, OF e]
    r e h i reachable.start[of throwing]
  show ?thesis by simp
qed

text \<open>
  Claim C7. An event that is not a keyboard event, and a repeat event where \<^verbatim>\<open>allowRepeat\<close>
  is false or not given (as it is where the options are left out), leave the state as it is:
  the table, the record of the callbacks called, and the timer. Where \<^verbatim>\<open>allowRepeat\<close> is true,
  a repeat event goes through the same loop over the bindings and the same rescheduling of
  the timer as an event that is not a repeat; an event and the same event with the repeat
  flag cleared are then handled alike, every callback ending the same way on both: the
  handling ends the same way, with the same table and timer and the same callbacks called.
\<close>

theorem discarded_and_repeat_events:
  "handle h Other st = (Normal, st)
   \<and> (allowRepeat (options h) \<noteq> Some True \<and> repeat event
        \<longrightarrow> handle h (Keyboard event) st = (Normal, st))
   \<and> allowRepeat (options (createKeybindingsHandler navigator keyBindingMap None)) \<noteq> Some True
   \<and> (allowRepeat (options h) = Some True \<or> \<not> repeat event
        \<longrightarrow> handle h (Keyboard event) st
              = (case forEach_keyBinding event 0 (keyBindings h) st of
                   (Throw, st') \<Rightarrow> (Throw, st')
                 | (Normal, st') \<Rightarrow> (Normal, reschedule h st')))
   \<and> (allowRepeat (options h) = Some True
        \<and> (\<forall>kb\<in>set (keyBindings h).
              snd kb (event\<lparr>repeat := True\<rparr>) = snd kb (event\<lparr>repeat := False\<rparr>))
        \<longrightarrow> fst (handle h (Keyboard (event\<lparr>repeat := True\<rparr>)) st)
              = fst (handle h (Keyboard (event\<lparr>repeat := False\<rparr>)) st)
          \<and> same_up_to_events (snd (handle h (Keyboard (event\<lparr>repeat := True\<rparr>)) st))
                               (snd (handle h (Keyboard (event\<lparr>repeat := False\<rparr>)) st)))"
proof -
  have 1: "handle h Other st = (Normal, st)" by (simp add: handle_def)
  have 2: "allowRepeat (options h) \<noteq> Some True \<and> repeat event
        \<longrightarrow> handle h (Keyboard event) st = (Normal, st)"
    by (simp add: handle_def)
  have 3: "allowRepeat (options (createKeybindingsHandler navigator keyBindingMap None)) \<noteq> Some True"
    by (simp add: createKeybindingsHandler_def)
  have 4: "allowRepeat (options h) = Some True \<or> \<not> repeat event
        \<longrightarrow> handle h (Keyboard event) st
              = (case forEach_keyBinding event 0 (keyBindings h) st of
                   (Throw, st') \<Rightarrow> (Throw, st')
                 | (Normal, st') \<Rightarrow> (Normal, reschedule h st'))"
    using handle_qualifying[of h event st] by blast
  have 5: "allowRepeat (options h) = Some True
        \<and> (\<forall>kb\<in>set (keyBindings h).
              snd kb (event\<lparr>repeat := True\<rparr>) = snd kb (event\<lparr>repeat := False\<rparr>))
        \<longrightarrow> fst (handle h (Keyboard (event\<lparr>repeat := True\<rparr>)) st)
              = fst (handle h (Keyboard (event\<lparr>repeat := False\<rparr>)) st)
          \<and> same_up_to_events (snd (handle h (Keyboard (event\<lparr>repeat := True\<rparr>)) st))
                               (snd (handle h (Keyboard (event\<lparr>repeat := False\<rparr>)) st))"
    using handle_repeat[of h event st] by blast
  from 1 2 3 4 5 show ?thesis by (intro conjI)
qed

text \<open>
  A repeated key e after the key y of \<^verbatim>\<open>y e e t\<close>: discarded by default, and handled like
  the event that is not a repeat where \<^verbatim>\<open>allowRepeat\<close> is set.
\<close>

theorem discarded_and_repeat_events_witness:
  "allowRepeat (options yeet) \<noteq> Some True
   \<and> repeat ((key_event ''e'' ''KeyE'' [])\<lparr>repeat := True\<rparr>)
   \<and> handle yeet (Keyboard ((key_event ''e'' ''KeyE'' [])\<lparr>repeat := True\<rparr>)) yeet_started
        = (Normal, yeet_started)
   \<and> allowRepeat (options yeet_repeating) = Some True
   \<and> fst (handle yeet_repeating (Keyboard ((key_event ''e'' ''KeyE'' [])\<lparr>repeat := True\<rparr>)) yeet_started)
        = fst (handle yeet_repeating (Keyboard ((key_event ''e'' ''KeyE'' [])\<lparr>repeat := False\<rparr>)) yeet_started)
   \<and> same_up_to_events
        (snd (handle yeet_repeating (Keyboard ((key_event ''e'' ''KeyE'' [])\<lparr>repeat := True\<rparr>)) yeet_started))
        (snd (handle yeet_repeating (Keyboard ((key_event ''e'' ''KeyE'' [])\<lparr>repeat := False\<rparr>)) yeet_started))"
proof -
  let ?e = "key_event ''e'' ''KeyE'' []"
  have a: "allowRepeat (options yeet) \<noteq> Some True"
    by (simp add: yeet_def createKeybindingsHandler_def)
  have b: "repeat (?e\<lparr>repeat := True\<rparr>)" by simp
  have c: "allowRepeat (options yeet_repeating) = Some True"
    by (simp add: yeet_repeating_def createKeybindingsHandler_def)
  have d: "\<forall>kb\<in>set (keyBindings yeet_repeating).
      snd kb (?e\<lparr>repeat := True\<rparr>) = snd kb (?e\<lparr>repeat := False\<rparr>)"
    by (simp add: yeet_repeating_def createKeybindingsHandler_def)
  from discarded_and_repeat_events[of yeet yeet_started "?e\<lparr>repeat := True\<rparr>"] a b
  have 1: "handle yeet (Keyboard (?e\<lparr>repeat := True\<rparr>)) yeet_started = (Normal, yeet_started)"
    by blast
  from discarded_and_repeat_events[of yeet_repeating yeet_started ?e] c d
  have 2: "fst (handle yeet_repeating (Keyboard (?e\<lparr>repeat := True\<rparr>)) yeet_started)
        = fst (handle yeet_repeating (Keyboard (?e\<lparr>repeat := False\<rparr>)) yeet_started)
   \<and> same_up_to_events
        (snd (handle yeet_repeating (Keyboard (?e\<lparr>repeat := True\<rparr>)) yeet_started))
        (snd (handle yeet_repeating (Keyboard (?e\<lparr>repeat := False\<rparr>)) yeet_started))"
    by blast
  from a b c 1 2 show ?thesis by blast
qed

text \<open>
  Claim C8. When the callback of a binding is called and throws, the handling throws; the
  entry of that binding is deleted; the bindings after it keep their entries and their
  callbacks are not called; and the timer is as it was: the pending one is not cleared and no
  new one is set.
\<close>

theorem throwing_callback_aborts_handler:
  assumes "h = createKeybindingsHandler navigator keyBindingMap opts"
    and "reachable h st"
    and "allowRepeat (options h) = Some True \<or> \<not> repeat event"
    and "handle h (Keyboard event) st = (c, st')"
    and "i < length (keyBindings h)"
    and "\<forall>j<i. \<not> callback_throws event (keyBindings h) st j"
    and "callback_throws event (keyBindings h) st i"
  shows "c = Throw
       \<and> possibleMatches st' i = None
       \<and> (\<forall>j>i. possibleMatches st' j = possibleMatches st j)
       \<and> invoked st' = invoked st @ map (\<lambda>j. (j, event))
            (filter (\<lambda>j. completes event (fst (keyBindings h ! j)) (possibleMatches st j)) [0..<Suc i])
       \<and> timer st' = timer st \<and> pending_timers st' = pending_timers st
       \<and> last_timer_id st' = last_timer_id st"
proof -
  have ne: "\<forall>kb\<in>set (keyBindings h). fst kb \<noteq> []"
    using created_sequences_not_Nil assms(1) by blast
  note wf = reachable_all_remaining[OF assms(2) ne]
  from assms(3) wf show ?thesis
  proof (cases rule: handle_result)
    case none
    then show ?thesis using assms(5,7) by blast
  next
    case (first k)
    have "k = i"
      using first(1,2,3) assms(5,6,7) by (meson linorder_neqE_nat)
    with first(4) assms(4) have c: "c = Throw"
      and st': "st' = evaluated_state event (keyBindings h) (Suc i) st" by simp_all
    have "completes event (fst (keyBindings h ! i)) (possibleMatches st i)"
      using assms(7) by (simp add: callback_throws_def)
    then have "possibleMatches st' i = None"
      unfolding st' by (simp add: completes_progress)
    then show ?thesis using c unfolding st' by simp
  qed
qed

text \<open>
  The three bindings at the key a: the second throws, the third is not evaluated, and no
  timer is set.
\<close>

theorem throwing_callback_aborts_handler_witness:
  "reachable throwing created
   \<and> \<not> callback_throws (key_event ''a'' ''KeyA'' []) (keyBindings throwing) created 0
   \<and> callback_throws (key_event ''a'' ''KeyA'' []) (keyBindings throwing) created 1
   \<and> handle throwing (Keyboard (key_event ''a'' ''KeyA'' [])) created = (Throw, a_thrown)
   \<and> possibleMatches a_thrown 1 = None
   \<and> possibleMatches a_thrown 2 = possibleMatches created 2
   \<and> timer a_thrown = timer created \<and> pending_timers a_thrown = pending_timers created"
proof -
  let ?e = "key_event ''a'' ''KeyA'' []"
  have q: "allowRepeat (options throwing) = Some True \<or> \<not> repeat ?e" by simp
  have h: "handle throwing (Keyboard ?e) created
             = (fst (handle throwing (Keyboard ?e) created), a_thrown)"
    by (simp add: a_thrown_def)
  have l1: "1 < length (keyBindings throwing)" by (simp add: throwing_eq)
  have n1: "\<forall>j<1. \<not> callback_throws ?e (keyBindings throwing) created j"
    using not_throws_0 by simp
  from throwing_callback_aborts_handler[OF throwing_def reachable.start q h l1 n1 throws_1]
  have "fst (handle throwing (Keyboard ?e) created) = Throw \<and> possibleMatches a_thrown 1 = None
      \<and> possibleMatches a_thrown 2 = possibleMatches created 2
      \<and> timer a_thrown = timer created \<and> pending_timers a_thrown = pending_timers created"
    by simp
  then show ?thesis using reachable.start not_throws_0 throws_1 h by simp
qed

end
